theory Spec2Isabelle
  imports Main
begin

section \<open>JavaScript values used by the orchestration core\<close>

text \<open>
  Strings are lists of code units; only code units below 256 are represented, which covers
  every literal the modelled functions inspect. Numbers are mathematical integers: the
  modelled loops only ever add, compare and print integral counters.
\<close>

text \<open>Template-literal conversion of a non-negative integer, \<^verbatim>\<open>`${n}`\<close>.\<close>

definition digitChar :: "nat \<Rightarrow> char" where
  "digitChar n = ''0123456789'' ! n"

function showNat :: "nat \<Rightarrow> string" where
  "showNat n = (if n < 10 then [digitChar n] else showNat (n div 10) @ [digitChar (n mod 10)])"
  by pat_completeness auto
termination
  by (relation "measure id") auto

definition showInt :: "int \<Rightarrow> string" where
  "showInt i = (if i < 0 then CHR ''-'' # showNat (nat (- i)) else showNat (nat i))"

text \<open>\<^verbatim>\<open>Array.prototype.join\<close> on an array of strings.\<close>

fun join :: "string \<Rightarrow> string list \<Rightarrow> string" where
  "join sep [] = []"
| "join sep [x] = x"
| "join sep (x # y # ys) = x @ sep @ join sep (y # ys)"

text \<open>
  \<^verbatim>\<open>Array.prototype.slice(start, end)\<close> for integral arguments: negative indices count
  from the end, both bounds are clamped to the array, an empty range gives the empty array.
\<close>

definition slice :: "'a list \<Rightarrow> int \<Rightarrow> int \<Rightarrow> 'a list" where
  "slice xs start fin =
     (let len = int (length xs);
          k = (if start < 0 then max (len + start) 0 else min start len);
          final = (if fin < 0 then max (len + fin) 0 else min fin len)
      in take (nat (final - k)) (drop (nat k) xs))"

text \<open>
  \<^verbatim>\<open>String.prototype.trim\<close>: strips white space and line terminators from both ends
  (tab, LF, VT, FF, CR, space and the no-break space, among the code units below 256).
\<close>

definition isWhiteSpace :: "char \<Rightarrow> bool" where
  "isWhiteSpace ch = (of_char ch \<in> {9, 10, 11, 12, 13, 32, 160 :: nat})"

definition trim :: "string \<Rightarrow> string" where
  "trim s = rev (dropWhile isWhiteSpace (rev (dropWhile isWhiteSpace s)))"

text \<open>
  A thrown value. The code only ever asks two things of a caught value: whether it is an
  \<^verbatim>\<open>OrchestrationError\<close> (message and optional details), some other \<^verbatim>\<open>Error\<close> (message),
  or not an \<^verbatim>\<open>Error\<close> at all (then \<^verbatim>\<open>String(err)\<close> is used).
\<close>

datatype thrown =
    OrchestrationError string "string option"
  | ErrorObj string
  | NonError string

text \<open>\<^verbatim>\<open>err instanceof Error ? err.message : String(err)\<close>\<close>

fun errorMessageOf :: "thrown \<Rightarrow> string" where
  "errorMessageOf (OrchestrationError m d) = m"
| "errorMessageOf (ErrorObj m) = m"
| "errorMessageOf (NonError s) = s"

fun isErrorInstance :: "thrown \<Rightarrow> bool" where
  "isErrorInstance (NonError s) = False"
| "isErrorInstance _ = True"

section \<open>Orchestrator: chunking of the selected scenarios\<close>

text \<open>
  \<^verbatim>\<open>
  const chunks = [];
  for (let i = 0; i < scenariosToRun.length; i += effectiveConfig.concurrency) {
    chunks.push(scenariosToRun.slice(i, i + effectiveConfig.concurrency));
  }
  \<close>
  The loop does not terminate when the step is not positive and the list is not empty; the
  model then has no result (\<open>None\<close>).
\<close>

partial_function (option) chunk_loop ::
  "'a list \<Rightarrow> int \<Rightarrow> int \<Rightarrow> 'a list list \<Rightarrow> 'a list list option" where
  "chunk_loop scenariosToRun concurrency i chunks =
     (if i < int (length scenariosToRun)
      then chunk_loop scenariosToRun concurrency (i + concurrency)
             (chunks @ [slice scenariosToRun i (i + concurrency)])
      else Some chunks)"

declare chunk_loop.simps [code]

definition makeChunks :: "'a list \<Rightarrow> int \<Rightarrow> 'a list list option" where
  "makeChunks scenariosToRun concurrency = chunk_loop scenariosToRun concurrency 0 []"

text \<open>
  Reference partition, used to reason about the loop: cut \<open>c\<close> elements off the front until
  nothing is left.
\<close>

function chunks_spec :: "nat \<Rightarrow> 'a list \<Rightarrow> 'a list list" where
  "chunks_spec c xs = (if c = 0 \<or> xs = [] then [] else take c xs # chunks_spec c (drop c xs))"
  by pat_completeness auto
termination
  by (relation "measure (\<lambda>(c, xs). length xs)") auto

declare chunks_spec.simps [simp del]

section \<open>Logging and observable effects\<close>

text \<open>
  Every effect of the modelled functions is appended to a trace: log records (level, message
  and the metadata object passed to the logger), calls of the external collaborators,
  timers. Wall-clock values (start time, duration), the \<^verbatim>\<open>console.log\<close> debugging lines
  and the pictographs that decorate some messages are left out of the trace.
\<close>

datatype level = Debug | Info | Warn | Error

datatype meta_value = MStr string | MNum int | MBool bool | MList "string list" | MUndefined

datatype event =
    Log level string "(string \<times> meta_value) list"
  | GenerateTestCalled string string
  | ExecSyncCalled string
  | RunWithRetriesCalled string string int
  | ActionCalled
  | OnErrorCalled thrown int
  | SetTimeout int

section \<open>ScenarioRetryRunner: \<^verbatim>\<open>runWithRetries\<close>\<close>

record RunOptions =
  reporter :: string
  ro_timeout :: int
  workers :: int
  ro_retries :: int

text \<open>The defaults of the destructuring \<^verbatim>\<open>const { reporter = "list", ... } = options\<close>.\<close>

definition defaultRunOptions :: RunOptions where
  "defaultRunOptions = \<lparr>reporter = ''list'', ro_timeout = 30000, workers = 1, ro_retries = 0\<rparr>"

record GeneratedTest =
  filePath :: string
  warnings :: "string list"

text \<open>
  The external collaborators of one \<^verbatim>\<open>runWithRetries\<close> call: what \<^verbatim>\<open>generateTest(prompt, tag)\<close>
  and \<^verbatim>\<open>execSync(command)\<close> do when called during attempt \<open>i\<close> (a thrown value or a normal
  return), and \<^verbatim>\<open>path.resolve(__dirname, "../tests", name)\<close>.
\<close>

record collaborators =
  generateTest :: "string \<Rightarrow> string \<Rightarrow> int \<Rightarrow> thrown + GeneratedTest"
  execSync :: "string \<Rightarrow> int \<Rightarrow> thrown option"
  resolveTestPath :: "string \<Rightarrow> string"

definition testCommand :: "collaborators \<Rightarrow> RunOptions \<Rightarrow> string \<Rightarrow> string" where
  "testCommand env opts tag =
     join '' '' [''npx playwright test'',
                 resolveTestPath env (tag @ ''.spec.ts''),
                 ''--reporter='' @ reporter opts,
                 ''--workers='' @ showInt (workers opts),
                 ''--retries='' @ showInt (ro_retries opts)]"

text \<open>The body of the \<^verbatim>\<open>try\<close> block of attempt \<open>i\<close>: its trace and the value it throws, if any.\<close>

definition tryAttempt ::
  "collaborators \<Rightarrow> string \<Rightarrow> string \<Rightarrow> int \<Rightarrow> RunOptions \<Rightarrow> int \<Rightarrow> event list \<times> thrown option" where
  "tryAttempt env prompt tag attempts opts i =
     (let tr1 = [Log Info (''Attempt '' @ showInt i @ '' of '' @ showInt attempts)
                   [(''tag'', MStr tag), (''prompt'', MStr (take 100 prompt))],
                 Log Debug ''Generating test...'' [(''tag'', MStr tag)],
                 GenerateTestCalled prompt tag]
      in case generateTest env prompt tag i of
           Inl err \<Rightarrow> (tr1, Some err)
         | Inr result \<Rightarrow>
             (let command = testCommand env opts tag;
                  tr2 = tr1 @ [Log Debug ''Test generated''
                                 [(''tag'', MStr tag), (''filePath'', MStr (filePath result)),
                                  (''warnings'', MList (warnings result))],
                               Log Info (''Running test command: '' @ command) [],
                               ExecSyncCalled command]
              in case execSync env command i of
                   Some err \<Rightarrow> (tr2, Some err)
                 | None \<Rightarrow>
                     (tr2 @ [Log Info ''Test passed successfully''
                               [(''tag'', MStr tag), (''attempt'', MNum i)]], None)))"

text \<open>The record the \<^verbatim>\<open>catch\<close> block logs for a failed attempt.\<close>

definition failedAttemptLog :: "string \<Rightarrow> int \<Rightarrow> int \<Rightarrow> string \<Rightarrow> event" where
  "failedAttemptLog tag attempts i errorMessage =
     Log Error (''Test attempt '' @ showInt i @ '' failed'')
       [(''tag'', MStr tag), (''error'', MStr (take 300 errorMessage)),
        (''attempt'', MNum i), (''totalAttempts'', MNum attempts)]"

text \<open>
  \<^verbatim>\<open>for (let i = 1; i <= attempts; i++) { try { ...; return; } catch (err) { ... } }\<close>
  The result is the value the returned promise rejects with (\<open>None\<close>: it resolves).
\<close>

function runWithRetries_loop ::
  "collaborators \<Rightarrow> string \<Rightarrow> string \<Rightarrow> int \<Rightarrow> RunOptions \<Rightarrow> int \<Rightarrow> event list
     \<Rightarrow> thrown option \<times> event list" where
  "runWithRetries_loop env prompt tag attempts opts i tr =
     (if i \<le> attempts then
        (case tryAttempt env prompt tag attempts opts i of
           (evs, None) \<Rightarrow> (None, tr @ evs)
         | (evs, Some err) \<Rightarrow>
             (let errorMessage = errorMessageOf err;
                  tr' = tr @ evs @ [failedAttemptLog tag attempts i errorMessage]
              in if i = attempts then
                   (Some (ErrorObj (''Test failed after '' @ showInt attempts @ '' attempts: ''
                                      @ errorMessage)),
                    tr' @ [Log Error ''All test attempts exhausted''
                             [(''tag'', MStr tag), (''attempts'', MNum attempts),
                              (''lastError'', MStr errorMessage)]])
                 else runWithRetries_loop env prompt tag attempts opts (i + 1)
                        (tr' @ [Log Info ''Regenerating test for next attempt''
                                  [(''tag'', MStr tag), (''nextAttempt'', MNum (i + 1))]])))
      else (None, tr))"
  by pat_completeness auto
termination
  by (relation "measure (\<lambda>(env, prompt, tag, attempts, opts, i, tr). nat (attempts + 1 - i))") auto

declare runWithRetries_loop.simps [simp del]

definition runWithRetries ::
  "collaborators \<Rightarrow> string \<Rightarrow> string \<Rightarrow> int \<Rightarrow> RunOptions \<Rightarrow> thrown option \<times> event list" where
  "runWithRetries env prompt tag attempts opts = runWithRetries_loop env prompt tag attempts opts 1 []"

text \<open>Number of pipeline runs in a trace: one \<^verbatim>\<open>generateTest\<close> call opens each of them.\<close>

fun isGenerate :: "event \<Rightarrow> bool" where
  "isGenerate (GenerateTestCalled p t) = True"
| "isGenerate _ = False"



section \<open>ActionRetrier: \<^verbatim>\<open>withRetry\<close>\<close>

text \<open>
  \<^verbatim>\<open>Required<SafeActionOptions>\<close>. The optional callback \<^verbatim>\<open>onError(error, attempt)\<close> is modelled
  by the value it throws, if any.
\<close>

record SafeActionOptions =
  retries :: int
  timeout :: int
  delay :: int
  force :: bool
  scroll :: bool
  sa_verbose :: bool
  onError :: "(thrown \<Rightarrow> int \<Rightarrow> thrown option) option"

definition DEFAULT_OPTIONS :: SafeActionOptions where
  "DEFAULT_OPTIONS = \<lparr>retries = 3, timeout = 5000, delay = 500, force = False, scroll = True,
                       sa_verbose = False, onError = None\<rparr>"

record SafeActionError =
  message :: string
  selector :: "string option"
  attempt :: int
  cause :: "thrown option"

text \<open>\<^verbatim>\<open>ActionResult<T>\<close> without its wall-clock \<^verbatim>\<open>duration\<close>.\<close>

record 'a ActionResult =
  success :: bool
  val :: "'a option"
  err :: "SafeActionError option"
  attempts :: int

text \<open>\<^verbatim>\<open>error instanceof Error ? error : new Error(String(error))\<close>\<close>

fun asError :: "thrown \<Rightarrow> thrown" where
  "asError (NonError s) = ErrorObj s"
| "asError e = e"

fun metaOpt :: "string option \<Rightarrow> meta_value" where
  "metaOpt None = MUndefined"
| "metaOpt (Some s) = MStr s"

text \<open>
  \<^verbatim>\<open>new SafeActionError(`${actionName} failed after ${attempts} attempts: ${errorMessage}`,
  target, attempts, error instanceof Error ? error : undefined)\<close>
\<close>

definition finalErrorOf :: "string \<Rightarrow> string option \<Rightarrow> int \<Rightarrow> thrown \<Rightarrow> SafeActionError" where
  "finalErrorOf actionName target n error =
     \<lparr>message = actionName @ '' failed after '' @ showInt n @ '' attempts: '' @ errorMessageOf error,
      selector = target,
      attempt = n,
      cause = (if isErrorInstance error then Some error else None)\<rparr>"

text \<open>
  The retry loop. \<open>action k\<close> is what the \<open>k\<close>-th invocation of the action does (numbered from
  0): throw or return a value. The result is \<open>Inl\<close> when \<^verbatim>\<open>withRetry\<close> itself throws.
\<close>

function withRetry_loop ::
  "(nat \<Rightarrow> thrown + 'a) \<Rightarrow> SafeActionOptions \<Rightarrow> string \<Rightarrow> string option \<Rightarrow> int \<Rightarrow> int
     \<Rightarrow> event list \<Rightarrow> (thrown + 'a ActionResult) \<times> event list" where
  "withRetry_loop action options actionName target i attempts0 tr =
     (if i < retries options then
        (let attempts = attempts0 + 1;
             tr1 = tr @ (if sa_verbose options
                         then [Log Info (actionName @ '' attempt '' @ showInt attempts @ ''/''
                                           @ showInt (retries options))
                                 [(''target'', metaOpt target)]]
                         else []) @ [ActionCalled]
         in case action (nat i) of
              Inr v \<Rightarrow>
                (Inr \<lparr>success = True, val = Some v, err = None, attempts = attempts\<rparr>,
                 tr1 @ [Log Debug (actionName @ '' succeeded'')
                          [(''target'', metaOpt target), (''attempts'', MNum attempts)]])
            | Inl error \<Rightarrow>
                (let isLastAttempt = (i = retries options - 1);
                     errorMessage = errorMessageOf error;
                     tr2 = tr1 @ [Log Warn (actionName @ '' attempt '' @ showInt attempts
                                              @ '' failed: '' @ errorMessage)
                                    [(''target'', metaOpt target), (''attempts'', MNum attempts),
                                     (''isLastAttempt'', MBool isLastAttempt)]];
                     cb = (case onError options of
                             None \<Rightarrow> ([], None)
                           | Some f \<Rightarrow> ([OnErrorCalled (asError error) attempts],
                                        f (asError error) attempts))
                 in case snd cb of
                      Some e \<Rightarrow> (Inl e, tr2 @ fst cb)
                    | None \<Rightarrow>
                        if isLastAttempt then
                          (let finalError = finalErrorOf actionName target attempts error
                           in (Inr \<lparr>success = False, val = None, err = Some finalError,
                                    attempts = attempts\<rparr>,
                               tr2 @ fst cb @
                               [Log Error (actionName @ '' failed permanently'')
                                  [(''target'', metaOpt target), (''attempts'', MNum attempts)]]))
                        else withRetry_loop action options actionName target (i + 1) attempts
                               (tr2 @ fst cb @ [SetTimeout (delay options * 2 ^ nat i)])))
      else (Inl (ErrorObj ''Unexpected retry loop exit''), tr))"
  by pat_completeness auto
termination
  by (relation "measure (\<lambda>(action, options, actionName, target, i, attempts0, tr).
                           nat (retries options - i))") auto

declare withRetry_loop.simps [simp del]

definition withRetry ::
  "(nat \<Rightarrow> thrown + 'a) \<Rightarrow> SafeActionOptions \<Rightarrow> string \<Rightarrow> string option
     \<Rightarrow> (thrown + 'a ActionResult) \<times> event list" where
  "withRetry action options actionName target =
     withRetry_loop action options actionName target 0 0 []"

fun isActionCall :: "event \<Rightarrow> bool" where
  "isActionCall ActionCalled = True"
| "isActionCall _ = False"

text \<open>
  The calls of the action and the timers of a trace, in order: what happens between two
  attempts.
\<close>

fun isTimer :: "event \<Rightarrow> bool" where
  "isTimer (SetTimeout ms) = True"
| "isTimer _ = False"

definition timeline :: "event list \<Rightarrow> event list" where
  "timeline tr = filter (\<lambda>e. isActionCall e \<or> isTimer e) tr"

text \<open>An action that rejects every call with \<^verbatim>\<open>new Error(msg)\<close>.\<close>

definition alwaysFailing :: "string \<Rightarrow> nat \<Rightarrow> thrown + unit" where
  "alwaysFailing msg k = Inl (ErrorObj msg)"

section \<open>Orchestrator: configuration placeholders\<close>

text \<open>The exported \<^verbatim>\<open>CONFIG\<close> object: five string-valued keys, in declaration order.\<close>

record Config =
  ENV :: string
  BASE_URL :: string
  USERNAME :: string
  PASSWORD :: string
  OPENAI_API_KEY :: string

definition configEntries :: "Config \<Rightarrow> (string \<times> string) list" where
  "configEntries C =
     [(''ENV'', ENV C), (''BASE_URL'', BASE_URL C), (''USERNAME'', USERNAME C),
      (''PASSWORD'', PASSWORD C), (''OPENAI_API_KEY'', OPENAI_API_KEY C)]"

text \<open>\<^verbatim>\<open>Object.keys(CONFIG)\<close>\<close>

definition configKeys :: "Config \<Rightarrow> string list" where
  "configKeys C = map fst (configEntries C)"

text \<open>The character class \<^verbatim>\<open>[A-Z0-9_]\<close>.\<close>

definition isKeyChar :: "char \<Rightarrow> bool" where
  "isKeyChar ch = (let n = (of_char ch :: nat)
                   in (65 \<le> n \<and> n \<le> 90) \<or> (48 \<le> n \<and> n \<le> 57) \<or> n = 95)"

fun stripPrefix :: "'a list \<Rightarrow> 'a list \<Rightarrow> 'a list option" where
  "stripPrefix [] s = Some s"
| "stripPrefix (p # ps) [] = None"
| "stripPrefix (p # ps) (c # cs) = (if p = c then stripPrefix ps cs else None)"

text \<open>
  A match of \<^verbatim>\<open>/\$\{CONFIG\.([A-Z0-9_]+)\}/\<close> at the start of \<open>s\<close>: the captured key and the
  text after the match. The class excludes the closing brace, so the greedy run of key
  characters is the only candidate for the group.
\<close>

definition matchPlaceholder :: "string \<Rightarrow> (string \<times> string) option" where
  "matchPlaceholder s =
     (case stripPrefix ''${CONFIG.'' s of
        None \<Rightarrow> None
      | Some t \<Rightarrow>
          (let key = takeWhile isKeyChar t; r = dropWhile isKeyChar t
           in case r of
                [] \<Rightarrow> None
              | ch # rest \<Rightarrow> if key \<noteq> [] \<and> ch = CHR ''}'' then Some (key, rest) else None))"

text \<open>
  The replacer callback:
  \<^verbatim>\<open>
  if (!(key in CONFIG)) throw new OrchestrationError(`Unknown configuration key: ${key}`,
                                `Available keys: ${Object.keys(CONFIG).join(", ")}`);
  return CONFIG[key] || "";
  \<close>
\<close>

definition replacer :: "Config \<Rightarrow> string \<Rightarrow> thrown + string" where
  "replacer C key =
     (case map_of (configEntries C) key of
        None \<Rightarrow> Inl (OrchestrationError (''Unknown configuration key: '' @ key)
                       (Some (''Available keys: '' @ join '', '' (configKeys C))))
      | Some v \<Rightarrow> Inr (if v \<noteq> [] then v else []))"

text \<open>
  \<^verbatim>\<open>template.replace(/.../g, callback)\<close>: scan from the left; at a match call the callback
  (the first throwing call ends the whole replacement) and go on after the match, otherwise
  copy one code unit.
\<close>

function interpolateConfigPlaceholders :: "Config \<Rightarrow> string \<Rightarrow> thrown + string" where
  "interpolateConfigPlaceholders C [] = Inr []"
| "interpolateConfigPlaceholders C (ch # cs) =
     (case matchPlaceholder (ch # cs) of
        Some (key, rest) \<Rightarrow>
          (case replacer C key of
             Inl e \<Rightarrow> Inl e
           | Inr v \<Rightarrow>
               (case interpolateConfigPlaceholders C rest of
                  Inl e \<Rightarrow> Inl e
                | Inr out \<Rightarrow> Inr (v @ out)))
      | None \<Rightarrow>
          (case interpolateConfigPlaceholders C cs of
             Inl e \<Rightarrow> Inl e
           | Inr out \<Rightarrow> Inr (ch # out)))"
  by pat_completeness auto
termination
proof (relation "measure (\<lambda>(C, s). length s)")
  show "wf (measure (\<lambda>(C, s). length s))" by simp
next
  fix C :: Config and ch cs x2 key rest v
  assume "matchPlaceholder (ch # cs) = Some x2" and "(key, rest) = x2"
  then have "matchPlaceholder (ch # cs) = Some (key, rest)" by simp
  then obtain t where t: "stripPrefix ''${CONFIG.'' (ch # cs) = Some t"
      and r: "dropWhile isKeyChar t = CHR ''}'' # rest"
    by (auto simp: matchPlaceholder_def Let_def split: option.splits list.splits if_splits)
  have sp: "stripPrefix p s = Some u \<Longrightarrow> s = p @ u" for p s :: string and u
    by (induction p s rule: stripPrefix.induct) (auto split: if_splits)
  have "length (dropWhile isKeyChar t) \<le> length t" by (rule length_dropWhile_le)
  moreover have "length (ch # cs) = length ''${CONFIG.'' + length t"
    using sp [OF t] by (metis length_append)
  moreover have "length (dropWhile isKeyChar t) = Suc (length rest)"
    using r by simp
  ultimately have "length rest < length (ch # cs)" by linarith
  then show "((C, rest), C, ch # cs) \<in> measure (\<lambda>(C, s). length s)" by simp
next
  fix C :: Config and ch cs
  show "((C, cs), C, ch # cs) \<in> measure (\<lambda>(C, s). length s)" by simp
qed

section \<open>Orchestrator: one scenario\<close>

record TestPrompt =
  tag :: string
  description :: string
  prompt :: string

text \<open>\<^verbatim>\<open>Required<OrchestratorConfig>\<close>\<close>

record OrchestratorConfig =
  concurrency :: int
  scenarioTimeout :: int
  retryAttempts :: int
  continueOnFailure :: bool
  verbose :: bool

definition DEFAULT_CONFIG :: OrchestratorConfig where
  "DEFAULT_CONFIG = \<lparr>concurrency = 1, scenarioTimeout = 5 * 60 * 1000, retryAttempts = 2,
                      continueOnFailure = True, verbose = False\<rparr>"

text \<open>
  What the surroundings do during one \<^verbatim>\<open>runScenario\<close> call: whether the abort signal is
  already set when the scenario starts, how the collaborators answer, and which of the two
  promises handed to \<^verbatim>\<open>Promise.race\<close> settles first. When the timer settles first, the
  retry runner has been called but what it does afterwards is not part of the trace of the
  scenario.
\<close>

datatype race_order = RunnerFirst | TimerFirst

record scenario_env =
  aborted :: bool
  collab :: collaborators
  settles :: race_order

text \<open>The \<^verbatim>\<open>catch\<close> block of \<^verbatim>\<open>runScenario\<close>: log the message, answer \<^verbatim>\<open>false\<close>.\<close>

definition scenarioFailed :: "TestPrompt \<Rightarrow> event list \<Rightarrow> thrown \<Rightarrow> bool \<times> event list" where
  "scenarioFailed p tr error =
     (False, tr @ [Log Error (''Scenario '' @ tag p @ '' failed: '' @ errorMessageOf error) []])"

definition runScenario ::
  "Config \<Rightarrow> TestPrompt \<Rightarrow> OrchestratorConfig \<Rightarrow> scenario_env \<Rightarrow> bool \<times> event list" where
  "runScenario C p config env =
     (let tr0 = [Log Info (''Running scenario: '' @ tag p @ '' - '' @ description p) []]
      in if aborted env then
           scenarioFailed p tr0 (OrchestrationError ''Scenario aborted by user'' None)
         else if trim (prompt p) = [] then
           scenarioFailed p tr0 (OrchestrationError ''Empty prompt'' None)
         else
           (case interpolateConfigPlaceholders C (prompt p) of
              Inl e \<Rightarrow> scenarioFailed p tr0 e
            | Inr expandedPrompt \<Rightarrow>
                (let tr1 = tr0 @ [SetTimeout (scenarioTimeout config),
                                  RunWithRetriesCalled expandedPrompt (tag p) (retryAttempts config)]
                 in case settles env of
                      TimerFirst \<Rightarrow>
                        scenarioFailed p tr1
                          (OrchestrationError (''Scenario timed out after ''
                             @ showInt (scenarioTimeout config) @ ''ms'') None)
                    | RunnerFirst \<Rightarrow>
                        (case runWithRetries (collab env) expandedPrompt (tag p)
                                (retryAttempts config) defaultRunOptions of
                           (Some e, evs) \<Rightarrow> scenarioFailed p (tr1 @ evs) e
                         | (None, evs) \<Rightarrow>
                             (True, tr1 @ evs @
                                [Log Info (''Scenario '' @ tag p @ '' passed'') []])))))"

section \<open>Orchestrator: \<^verbatim>\<open>main\<close>\<close>

record RunStats =
  total :: nat
  passed :: nat
  failed :: "string list"

text \<open>\<^verbatim>\<open>String.prototype.toLowerCase\<close> on code units below 256.\<close>

definition toLowerChar :: "char \<Rightarrow> char" where
  "toLowerChar ch = (let n = (of_char ch :: nat)
                     in if (65 \<le> n \<and> n \<le> 90) \<or> (192 \<le> n \<and> n \<le> 222 \<and> n \<noteq> 215)
                        then char_of (n + 32) else ch)"

text \<open>
  \<^verbatim>\<open>parseArgs\<close>, from \<^verbatim>\<open>process.argv[2]\<close>, \<^verbatim>\<open>process.argv[3]\<close> and \<^verbatim>\<open>process.env.ENV\<close>
  (\<open>None\<close>: undefined). An empty string is falsy.
\<close>

definition truthy :: "string option \<Rightarrow> bool" where
  "truthy v = (case v of None \<Rightarrow> False | Some s \<Rightarrow> s \<noteq> [])"

definition parseArgs ::
  "string option \<Rightarrow> string option \<Rightarrow> string option \<Rightarrow> thrown + (string option \<times> string)" where
  "parseArgs argv2 argv3 envENV =
     (let tagToRun = argv2; envArg = map_option (map toLowerChar) argv3
      in if truthy envArg \<and> the envArg \<notin> set [''qa'', ''uat'', ''prod''] then
           Inl (OrchestrationError (''Invalid environment: '' @ the envArg)
                  (Some ''Must be one of: qa, uat, prod''))
         else
           (let envENV' = (if truthy envArg then envArg else envENV)
            in Inr (tagToRun, if truthy envENV' then the envENV' else ''qa'')))"

text \<open>
  One chunk: \<^verbatim>\<open>chunk.map(async scenario => ...)\<close> followed by \<^verbatim>\<open>Promise.all\<close>. Every
  scenario of the chunk is started; the results come back in the order of the chunk. \<open>k\<close> counts
  the \<^verbatim>\<open>runScenario\<close> calls made so far in the run and selects the surroundings of each
  call. The traces of the scenarios of a chunk are listed one scenario after the other.
\<close>

fun runChunk ::
  "Config \<Rightarrow> OrchestratorConfig \<Rightarrow> (nat \<Rightarrow> scenario_env) \<Rightarrow> nat \<Rightarrow> TestPrompt list
     \<Rightarrow> (TestPrompt \<times> bool) list \<times> event list" where
  "runChunk C config envs k [] = ([], [])"
| "runChunk C config envs k (scenario # rest) =
     (let (result, evs) = runScenario C scenario config (envs k);
          (results, evs') = runChunk C config envs (Suc k) rest
      in ((scenario, result) # results, evs @ evs'))"

text \<open>
  \<^verbatim>\<open>new OrchestrationError("Test run aborted due to failure", `Failed scenario: ${scenario.tag}`)\<close>
\<close>

definition abortError :: "TestPrompt \<Rightarrow> thrown" where
  "abortError scenario =
     OrchestrationError ''Test run aborted due to failure''
       (Some (''Failed scenario: '' @ tag scenario))"

text \<open>
  \<^verbatim>\<open>
  for (const { scenario, passed } of chunkResults) {
    if (passed) { stats.passed++; }
    else {
      stats.failed.push(scenario.tag);
      if (!effectiveConfig.continueOnFailure) throw new OrchestrationError(...);
    }
  }
  \<close>
\<close>

fun aggregate ::
  "OrchestratorConfig \<Rightarrow> RunStats \<Rightarrow> (TestPrompt \<times> bool) list \<Rightarrow> RunStats \<times> thrown option" where
  "aggregate config stats [] = (stats, None)"
| "aggregate config stats ((scenario, ok) # rest) =
     (if ok then aggregate config (stats\<lparr>passed := passed stats + 1\<rparr>) rest
      else
        (let stats' = stats\<lparr>failed := failed stats @ [tag scenario]\<rparr>
         in if \<not> continueOnFailure config then
              (stats', Some (abortError scenario))
            else aggregate config stats' rest))"

text \<open>
  \<^verbatim>\<open>for (const chunk of chunks) { ... }\<close>: the statistics, the error thrown out of the loop
  (if any), the number of scenarios started and the trace.
\<close>

fun processChunks ::
  "Config \<Rightarrow> OrchestratorConfig \<Rightarrow> (nat \<Rightarrow> scenario_env) \<Rightarrow> nat \<Rightarrow> RunStats \<Rightarrow> event list
     \<Rightarrow> TestPrompt list list \<Rightarrow> RunStats \<times> thrown option \<times> nat \<times> event list" where
  "processChunks C config envs k stats tr [] = (stats, None, k, tr)"
| "processChunks C config envs k stats tr (chunk # chunks) =
     (let (results, evs) = runChunk C config envs k chunk;
          (stats', thrownErr) = aggregate config stats results
      in case thrownErr of
           Some e \<Rightarrow> (stats', Some e, k + length chunk, tr @ evs)
         | None \<Rightarrow> processChunks C config envs (k + length chunk) stats' (tr @ evs) chunks)"

text \<open>How \<^verbatim>\<open>main\<close> ends: it returns, or the process exits with a code.\<close>

datatype ending = Returned | ProcessExit int

record run_result =
  ending :: ending
  stats :: "RunStats option"
  caught :: "thrown option"
  started :: nat
  trace :: "event list"

text \<open>
  The \<^verbatim>\<open>catch\<close> block of \<^verbatim>\<open>main\<close>: an \<^verbatim>\<open>OrchestrationError\<close> is logged with its details,
  anything else as unexpected; the process exits with code 1.
\<close>

definition mainCatch :: "thrown \<Rightarrow> RunStats option \<Rightarrow> nat \<Rightarrow> event list \<Rightarrow> run_result" where
  "mainCatch error st k tr =
     \<lparr>ending = ProcessExit 1, stats = st, caught = Some error, started = k,
      trace = tr @ (case error of
                      OrchestrationError m d \<Rightarrow>
                        Log Error (''Orchestration error: '' @ m) [] #
                        (if truthy d then [Log Error (''Details: '' @ the d) []] else [])
                    | _ \<Rightarrow> [Log Error ''Unexpected error:'' [(''0'', MStr (errorMessageOf error))]])\<rparr>"

text \<open>\<^verbatim>\<open>{ ...DEFAULT_CONFIG, ...config }\<close> for an argument with optional fields.\<close>

record OrchestratorOverrides =
  o_concurrency :: "int option"
  o_scenarioTimeout :: "int option"
  o_retryAttempts :: "int option"
  o_continueOnFailure :: "bool option"
  o_verbose :: "bool option"

definition effective :: "OrchestratorOverrides \<Rightarrow> OrchestratorConfig" where
  "effective config =
     \<lparr>concurrency = (case o_concurrency config of None \<Rightarrow> concurrency DEFAULT_CONFIG | Some v \<Rightarrow> v),
      scenarioTimeout = (case o_scenarioTimeout config of None \<Rightarrow> scenarioTimeout DEFAULT_CONFIG | Some v \<Rightarrow> v),
      retryAttempts = (case o_retryAttempts config of None \<Rightarrow> retryAttempts DEFAULT_CONFIG | Some v \<Rightarrow> v),
      continueOnFailure = (case o_continueOnFailure config of None \<Rightarrow> continueOnFailure DEFAULT_CONFIG | Some v \<Rightarrow> v),
      verbose = (case o_verbose config of None \<Rightarrow> verbose DEFAULT_CONFIG | Some v \<Rightarrow> v)\<rparr>"

text \<open>The first record \<^verbatim>\<open>main\<close> logs after parsing its arguments.\<close>

definition startLog :: "string option \<Rightarrow> string \<Rightarrow> event" where
  "startLog tagToRun envName =
     Log Info (''Starting test run in '' @ envName @ '' environment with tag ''
                 @ (if truthy tagToRun then the tagToRun else ''ALL'')) []"

text \<open>\<^verbatim>\<open>tagToRun ? prompts.filter(p => p.tag === tagToRun) : prompts\<close>\<close>

definition selectScenarios :: "string option \<Rightarrow> TestPrompt list \<Rightarrow> TestPrompt list" where
  "selectScenarios tagToRun prompts =
     (if truthy tagToRun then filter (\<lambda>p. tag p = the tagToRun) prompts else prompts)"

text \<open>
  \<^verbatim>\<open>main\<close>. \<open>prompts\<close> is the loaded scenario catalogue. The result is \<open>None\<close> when the
  chunking loop does not terminate.
\<close>

definition main ::
  "Config \<Rightarrow> TestPrompt list \<Rightarrow> string option \<Rightarrow> string option \<Rightarrow> string option
     \<Rightarrow> OrchestratorOverrides \<Rightarrow> (nat \<Rightarrow> scenario_env) \<Rightarrow> run_result option" where
  "main C prompts argv2 argv3 envENV config envs =
     (let effectiveConfig = effective config
      in case parseArgs argv2 argv3 envENV of
           Inl e \<Rightarrow> Some (mainCatch e None 0 [])
         | Inr (tagToRun, envName) \<Rightarrow>
             (let tr0 = [startLog tagToRun envName];
                  scenariosToRun = selectScenarios tagToRun prompts
              in if length scenariosToRun = 0 then
                   Some \<lparr>ending = Returned, stats = None, caught = None, started = 0,
                         trace = tr0 @ [Log Warn (''No scenarios found'' @
                                   (if truthy tagToRun then '' for tag: '' @ the tagToRun else [])) []]\<rparr>
                 else
                   (case makeChunks scenariosToRun (concurrency effectiveConfig) of
                      None \<Rightarrow> None
                    | Some chunks \<Rightarrow>
                        (let stats0 = \<lparr>total = length scenariosToRun, passed = 0, failed = []\<rparr>
                         in case processChunks C effectiveConfig envs 0 stats0 tr0 chunks of
                              (st, Some e, k, tr) \<Rightarrow> Some (mainCatch e (Some st) k tr)
                            | (st, None, k, tr) \<Rightarrow>
                                (let tr' = tr @ [Log Info ''Test Run Summary'' [],
                                                 Log Info (''Total: '' @ showInt (int (total st))) [],
                                                 Log Info (''Passed: '' @ showInt (int (passed st))) [],
                                                 Log Info (''Failed: '' @ showInt (int (length (failed st)))) []]
                                 in if length (failed st) > 0 then
                                      Some \<lparr>ending = ProcessExit 1, stats = Some st, caught = None,
                                            started = k,
                                            trace = tr' @ [Log Error ''Failed scenarios:''
                                                             [(''0'', MStr (join '', '' (failed st)))]]\<rparr>
                                    else
                                      Some \<lparr>ending = Returned, stats = Some st, caught = None,
                                            started = k,
                                            trace = tr' @ [Log Info ''Test run completed successfully'' []]\<rparr>)))))"

section \<open>Example surroundings\<close>

text \<open>The events that belong to the execution of a scenario by the retry runner.\<close>

fun isExecution :: "event \<Rightarrow> bool" where
  "isExecution (RunWithRetriesCalled p t n) = True"
| "isExecution (GenerateTestCalled p t) = True"
| "isExecution (ExecSyncCalled c) = True"
| "isExecution _ = False"

text \<open>A configuration, collaborators that always succeed, and a catalogue entry whose prompt
  names a key that the configuration does not have.\<close>

definition exampleConfig :: Config where
  "exampleConfig = \<lparr>ENV = ''qa'', BASE_URL = ''https://x'', USERNAME = ''user'',
                     PASSWORD = ''secret'', OPENAI_API_KEY = ''sk''\<rparr>"

definition passingCollaborators :: collaborators where
  "passingCollaborators =
     \<lparr>generateTest = (\<lambda>p t i. Inr \<lparr>filePath = ''tests/'' @ t @ ''.spec.ts'', warnings = []\<rparr>),
      execSync = (\<lambda>c i. None),
      resolveTestPath = (\<lambda>name. ''tests/'' @ name)\<rparr>"

definition calmSurroundings :: "nat \<Rightarrow> scenario_env" where
  "calmSurroundings k = \<lparr>aborted = False, collab = passingCollaborators, settles = RunnerFirst\<rparr>"

definition noOverrides :: OrchestratorOverrides where
  "noOverrides = \<lparr>o_concurrency = None, o_scenarioTimeout = None, o_retryAttempts = None,
                   o_continueOnFailure = None, o_verbose = None\<rparr>"


text \<open>A catalogue of three scenarios, the second with a blank prompt, and the override
  \<^verbatim>\<open>{ continueOnFailure: false }\<close>.\<close>

definition exampleCatalogue :: "TestPrompt list" where
  "exampleCatalogue =
     [\<lparr>tag = ''a'', description = ''first'', prompt = ''open the page''\<rparr>,
      \<lparr>tag = ''b'', description = ''second'', prompt = ''   ''\<rparr>,
      \<lparr>tag = ''c'', description = ''third'', prompt = ''log in as ${CONFIG.USERNAME}''\<rparr>]"


section \<open>Chunking: proofs\<close>

lemma slice_nonneg:
  "0 \<le> i \<Longrightarrow> 0 \<le> c \<Longrightarrow> slice xs i (i + c) = take (nat c) (drop (nat i) xs)"
  by (auto simp: slice_def Let_def min_def)

lemma chunk_loop_spec:
  assumes "1 \<le> c"
  shows "0 \<le> i \<Longrightarrow> chunk_loop xs c i acc = Some (acc @ chunks_spec (nat c) (drop (nat i) xs))"
proof (induction "length xs - nat i" arbitrary: i acc rule: less_induct)
  case less
  show ?case
  proof (cases "i < int (length xs)")
    case False
    with less.prems have "drop (nat i) xs = []" by simp
    with False show ?thesis
      by (subst chunk_loop.simps) (simp add: chunks_spec.simps)
  next
    case True
    with less.prems assms have m: "length xs - nat (i + c) < length xs - nat i" by linarith
    have nz: "drop (nat i) xs \<noteq> []" using True less.prems by simp
    have step: "chunk_loop xs c (i + c) (acc @ [slice xs i (i + c)])
        = Some ((acc @ [slice xs i (i + c)]) @ chunks_spec (nat c) (drop (nat (i + c)) xs))"
      using less.hyps [OF m] less.prems assms by simp
    have d: "drop (nat (i + c)) xs = drop (nat c) (drop (nat i) xs)"
      using less.prems assms by (simp add: nat_add_distrib add.commute)
    have "chunks_spec (nat c) (drop (nat i) xs)
        = take (nat c) (drop (nat i) xs) # chunks_spec (nat c) (drop (nat c) (drop (nat i) xs))"
      using nz assms by (subst chunks_spec.simps) simp
    with step d True less.prems assms show ?thesis
      by (subst chunk_loop.simps) (simp add: slice_nonneg)
  qed
qed

lemma makeChunks_spec: "1 \<le> c \<Longrightarrow> makeChunks xs c = Some (chunks_spec (nat c) xs)"
  by (simp add: makeChunks_def chunk_loop_spec)

lemma concat_chunks_spec: "0 < c \<Longrightarrow> concat (chunks_spec c xs) = xs"
proof (induction c xs rule: chunks_spec.induct)
  case (1 c xs)
  then show ?case by (subst chunks_spec.simps) auto
qed

lemma length_chunks_spec: "0 < c \<Longrightarrow> length (chunks_spec c xs) = (length xs + c - 1) div c"
proof (induction c xs rule: chunks_spec.induct)
  case (1 c xs)
  show ?case
  proof (cases "xs = []")
    case True
    with 1 show ?thesis by (subst chunks_spec.simps) simp
  next
    case False
    with 1 have ih: "length (chunks_spec c (drop c xs)) = (length xs - c + c - 1) div c" by simp
    have "(length xs + c - 1) div c = Suc ((length xs - c + c - 1) div c)"
    proof (cases "c \<le> length xs")
      case True
      then have "length xs + c - 1 = (length xs - c + c - 1) + c" using 1(2) by simp
      then show ?thesis using 1(2) by (metis div_add_self2 less_numeral_extra(3) Suc_eq_plus1)
    next
      case False
      have "0 < length xs" using \<open>xs \<noteq> []\<close> by simp
      with False 1(2) have "length xs + c - 1 < 2 * c" "c \<le> length xs + c - 1"
        "length xs - c + c - 1 < c"
        by linarith+
      then show ?thesis by (simp add: div_nat_eqI)
    qed
    with ih False 1(2) show ?thesis by (subst chunks_spec.simps) simp
  qed
qed

lemma nth_chunks_spec:
  "0 < c \<Longrightarrow> k < length (chunks_spec c xs) \<Longrightarrow> chunks_spec c xs ! k = take c (drop (k * c) xs)"
proof (induction c xs arbitrary: k rule: chunks_spec.induct)
  case (1 c xs)
  show ?case
  proof (cases "xs = []")
    case True
    with 1(3) show ?thesis by (simp add: chunks_spec.simps)
  next
    case False
    with 1(2) have unf: "chunks_spec c xs = take c xs # chunks_spec c (drop c xs)"
      by (subst chunks_spec.simps) simp
    show ?thesis
    proof (cases k)
      case 0
      with unf show ?thesis by simp
    next
      case (Suc k')
      with unf 1(3) have "k' < length (chunks_spec c (drop c xs))" by simp
      with 1(1) [of k'] 1(2) False
      have "chunks_spec c (drop c xs) ! k' = take c (drop (k' * c) (drop c xs))" by simp
      with unf Suc show ?thesis by (simp add: add.commute)
    qed
  qed
qed

lemma chunk_lengths:
  fixes c n k :: nat
  assumes c: "0 < c"
  shows "Suc k < (n + c - 1) div c \<Longrightarrow> min c (n - k * c) = c"
    and "Suc k = (n + c - 1) div c \<Longrightarrow> 1 \<le> min c (n - k * c)"
proof -
  have le: "(n + c - 1) div c * c \<le> n + c - 1" by simp
  {
    assume "Suc k < (n + c - 1) div c"
    then have "Suc (Suc k) * c \<le> (n + c - 1) div c * c" by (simp add: Suc_le_eq del: mult_Suc)
    with le have "Suc (Suc k) * c \<le> n + c - 1" by linarith
    then have "k * c + c \<le> n" using c by simp
    then show "min c (n - k * c) = c" by simp
  }
  {
    assume "Suc k = (n + c - 1) div c"
    with le have "Suc k * c \<le> n + c - 1" by simp
    then have "k * c < n" using c by simp
    then show "1 \<le> min c (n - k * c)" using c by simp
  }
qed


lemma list_of_length_five: "length xs = 5 \<Longrightarrow> \<exists>a b d e f. xs = [a, b, d, e, f]"
  by (auto simp: length_Suc_conv eval_nat_numeral)

lemma chunks_spec_two_five: "map length (chunks_spec 2 [a, b, d, e, f]) = [2, 2, 1]"
  by (simp add: chunks_spec.simps [of 2])

text \<open>
  C1. For every list of selected scenarios and every concurrency \<open>c \<ge> 1\<close> the chunking loop
  terminates with consecutive chunks whose concatenation is the original list: chunk \<open>k\<close> is
  the \<open>c\<close> elements from position \<open>k * c\<close> on, every chunk but the last has exactly \<open>c\<close>
  elements, the last has between 1 and \<open>c\<close>; for \<open>c = 2\<close> and five scenarios the sizes are
  \<open>[2, 2, 1]\<close>.
\<close>

theorem C1_chunking:
  assumes "1 \<le> c"
  shows "\<exists>chunks. makeChunks xs c = Some chunks
     \<and> concat chunks = xs
     \<and> length chunks = (length xs + nat c - 1) div nat c
     \<and> (\<forall>k < length chunks. chunks ! k = take (nat c) (drop (k * nat c) xs))
     \<and> (\<forall>k. Suc k < length chunks \<longrightarrow> length (chunks ! k) = nat c)
     \<and> (\<forall>k. Suc k = length chunks \<longrightarrow> 1 \<le> length (chunks ! k) \<and> length (chunks ! k) \<le> nat c)
     \<and> (c = 2 \<and> length xs = 5 \<longrightarrow> map length chunks = [2, 2, 1])"
proof (intro exI conjI)
  have n: "0 < nat c" using assms by simp
  show "makeChunks xs c = Some (chunks_spec (nat c) xs)" using assms by (rule makeChunks_spec)
  show "concat (chunks_spec (nat c) xs) = xs" using n by (rule concat_chunks_spec)
  show len: "length (chunks_spec (nat c) xs) = (length xs + nat c - 1) div nat c"
    using n by (rule length_chunks_spec)
  show nth: "\<forall>k < length (chunks_spec (nat c) xs).
      chunks_spec (nat c) xs ! k = take (nat c) (drop (k * nat c) xs)"
    by (intro allI impI nth_chunks_spec n)
  show "\<forall>k. Suc k < length (chunks_spec (nat c) xs) \<longrightarrow> length (chunks_spec (nat c) xs ! k) = nat c"
  proof (intro allI impI)
    fix k assume k: "Suc k < length (chunks_spec (nat c) xs)"
    then have "k < length (chunks_spec (nat c) xs)" by simp
    then have e: "chunks_spec (nat c) xs ! k = take (nat c) (drop (k * nat c) xs)" using nth by blast
    have "min (nat c) (length xs - k * nat c) = nat c"
      using k unfolding len by (rule chunk_lengths(1) [OF n])
    then show "length (chunks_spec (nat c) xs ! k) = nat c"
      unfolding e by (simp only: length_take length_drop min.commute)
  qed
  show "\<forall>k. Suc k = length (chunks_spec (nat c) xs) \<longrightarrow>
      1 \<le> length (chunks_spec (nat c) xs ! k) \<and> length (chunks_spec (nat c) xs ! k) \<le> nat c"
  proof (intro allI impI)
    fix k assume k: "Suc k = length (chunks_spec (nat c) xs)"
    then have "k < length (chunks_spec (nat c) xs)" by simp
    then have e: "chunks_spec (nat c) xs ! k = take (nat c) (drop (k * nat c) xs)" using nth by blast
    have "1 \<le> min (nat c) (length xs - k * nat c)"
      using k unfolding len by (rule chunk_lengths(2) [OF n])
    then show "1 \<le> length (chunks_spec (nat c) xs ! k) \<and> length (chunks_spec (nat c) xs ! k) \<le> nat c"
      unfolding e by (simp only: length_take length_drop min.commute min.cobounded1 simp_thms)
  qed
  show "c = 2 \<and> length xs = 5 \<longrightarrow> map length (chunks_spec (nat c) xs) = [2, 2, 1]"
  proof
    assume h: "c = 2 \<and> length xs = 5"
    then obtain a b d e f where x: "xs = [a, b, d, e, f]" using list_of_length_five by blast
    have c2: "nat c = 2" using h by simp
    show "map length (chunks_spec (nat c) xs) = [2, 2, 1]"
      unfolding c2 x by (rule chunks_spec_two_five)
  qed
qed

theorem C1_chunking_witness:
  "\<exists>chunks. makeChunks [1, 2, 3, 4, 5 :: nat] 2 = Some chunks
     \<and> concat chunks = [1, 2, 3, 4, 5] \<and> map length chunks = [2, 2, 1]"
proof -
  have h: "(1::int) \<le> 2" by simp
  show ?thesis
    using C1_chunking [OF h, of "[1, 2, 3, 4, 5 :: nat]"]
    by (elim exE conjE, rule_tac x = chunks in exI) simp
qed

section \<open>Retry runner: proofs\<close>






lemma showInt_small [simp]: "showInt 1 = ''1''" "showInt 2 = ''2''" "showInt 3 = ''3''"
  by (simp_all add: showInt_def showNat.simps digitChar_def)




section \<open>Action retrier: proofs\<close>

lemma timeline_append [simp]: "timeline (xs @ ys) = timeline xs @ timeline ys"
  by (simp add: timeline_def)

lemma timeline_simps [simp]:
  "timeline [] = []"
  "timeline (Log l m meta # es) = timeline es"
  "timeline (OnErrorCalled e a # es) = timeline es"
  "timeline (ActionCalled # es) = ActionCalled # timeline es"
  "timeline (SetTimeout ms # es) = SetTimeout ms # timeline es"
  by (simp_all add: timeline_def)

lemma withRetry_loop_fail_step:
  assumes "i < retries options" and "action (nat i) = Inl e"
    and "\<forall>f. onError options = Some f \<longrightarrow> f (asError e) (i + 1) = None"
  shows "\<exists>tr2. timeline tr2 = timeline tr @ [ActionCalled] \<and>
     withRetry_loop action options nm tgt i i tr =
       (if i = retries options - 1
        then (Inr \<lparr>success = False, val = None, err = Some (finalErrorOf nm tgt (i + 1) e),
                   attempts = i + 1\<rparr>,
              tr2 @ [Log Error (nm @ '' failed permanently'')
                       [(''target'', metaOpt tgt), (''attempts'', MNum (i + 1))]])
        else withRetry_loop action options nm tgt (i + 1) (i + 1)
               (tr2 @ [SetTimeout (delay options * 2 ^ nat i)]))"
proof -
  define tr2 where "tr2 = tr @
      (if sa_verbose options
       then [Log Info (nm @ '' attempt '' @ showInt (i + 1) @ ''/'' @ showInt (retries options))
               [(''target'', metaOpt tgt)]]
       else []) @
      [ActionCalled,
       Log Warn (nm @ '' attempt '' @ showInt (i + 1) @ '' failed: '' @ errorMessageOf e)
         [(''target'', metaOpt tgt), (''attempts'', MNum (i + 1)),
          (''isLastAttempt'', MBool (i = retries options - 1))]] @
      (case onError options of None \<Rightarrow> [] | Some f \<Rightarrow> [OnErrorCalled (asError e) (i + 1)])"
  have tl: "timeline tr2 = timeline tr @ [ActionCalled]"
    by (simp add: tr2_def split: option.splits)
  have "withRetry_loop action options nm tgt i i tr =
       (if i = retries options - 1
        then (Inr \<lparr>success = False, val = None, err = Some (finalErrorOf nm tgt (i + 1) e),
                   attempts = i + 1\<rparr>,
              tr2 @ [Log Error (nm @ '' failed permanently'')
                       [(''target'', metaOpt tgt), (''attempts'', MNum (i + 1))]])
        else withRetry_loop action options nm tgt (i + 1) (i + 1)
               (tr2 @ [SetTimeout (delay options * 2 ^ nat i)]))"
  proof (cases "onError options")
    case None
    with assms(1,2) show ?thesis
      by (subst withRetry_loop.simps) (simp add: Let_def finalErrorOf_def tr2_def)
  next
    case (Some f)
    with assms(3) have "f (asError e) (i + 1) = None" by simp
    with Some assms(1,2) show ?thesis
      by (subst withRetry_loop.simps) (simp add: Let_def finalErrorOf_def tr2_def)
  qed
  with tl show ?thesis by blast
qed



lemma withRetry_loop_outcome:
  "0 \<le> i \<Longrightarrow> i < retries options \<Longrightarrow>
   (case fst (withRetry_loop action options nm tgt i i tr) of
      Inr res \<Rightarrow> i < attempts res \<and> attempts res \<le> retries options
    | Inl e \<Rightarrow> \<exists>f k er. onError options = Some f \<and> nat i \<le> k \<and> int k < retries options
                  \<and> action k = Inl er \<and> f (asError er) (int k + 1) = Some e)"
proof (induction "nat (retries options - i)" arbitrary: i tr rule: less_induct)
  case less
  show ?case
  proof (cases "action (nat i)")
    case (Inr v)
    then show ?thesis using less.prems by (subst withRetry_loop.simps) (simp add: Let_def)
  next
    case (Inl er)
    show ?thesis
    proof (cases "\<exists>f e. onError options = Some f \<and> f (asError er) (i + 1) = Some e")
      case True
      then obtain f e where f: "onError options = Some f" "f (asError er) (i + 1) = Some e"
        by blast
      have r: "fst (withRetry_loop action options nm tgt i i tr) = Inl e"
        using Inl f less.prems by (subst withRetry_loop.simps) (simp add: Let_def)
      have "int (nat i) = i" using less.prems by simp
      with f Inl less.prems
      have "\<exists>f k er. onError options = Some f \<and> nat i \<le> k \<and> int k < retries options
                  \<and> action k = Inl er \<and> f (asError er) (int k + 1) = Some e"
        by (intro exI [of _ f] exI [of _ "nat i"] exI [of _ er]) simp
      with r show ?thesis by simp
    next
      case False
      then have q: "\<forall>f. onError options = Some f \<longrightarrow> f (asError er) (i + 1) = None"
        by auto
      from withRetry_loop_fail_step [where i = i and options = options and action = action
          and e = er and tr = tr and nm = nm and tgt = tgt, OF less.prems(2) Inl q]
      obtain tr2 where
        st: "withRetry_loop action options nm tgt i i tr =
         (if i = retries options - 1
          then (Inr \<lparr>success = False, val = None, err = Some (finalErrorOf nm tgt (i + 1) er),
                     attempts = i + 1\<rparr>,
                tr2 @ [Log Error (nm @ '' failed permanently'')
                         [(''target'', metaOpt tgt), (''attempts'', MNum (i + 1))]])
          else withRetry_loop action options nm tgt (i + 1) (i + 1)
                 (tr2 @ [SetTimeout (delay options * 2 ^ nat i)]))"
        by blast
      show ?thesis
      proof (cases "i = retries options - 1")
        case True
        with st show ?thesis by simp
      next
        case False
        have m: "nat (retries options - (i + 1)) < nat (retries options - i)"
          using less.prems by linarith
        have b: "0 \<le> i + 1" "i + 1 < retries options" using less.prems False by linarith+
        have le: "nat i \<le> nat (i + 1)" by simp
        from less.hyps [OF m b, of "tr2 @ [SetTimeout (delay options * 2 ^ nat i)]"] le
        show ?thesis unfolding st using False
          by (auto split: sum.splits intro: order.trans)
      qed
    qed
  qed
qed


lemma alternating_nth:
  fixes a :: 'a and f :: "nat \<Rightarrow> 'a"
  defines "xs n \<equiv> concat (map (\<lambda>k. [a, f k]) [0 ..< n]) @ [a]"
  shows "length (xs n) = 2 * n + 1"
    and "j < n \<Longrightarrow> xs n ! (2 * j) = a \<and> xs n ! (2 * j + 1) = f j"
    and "xs n ! (2 * n) = a"
proof -
  have len: "length (concat (map (\<lambda>k. [a, f k]) [0 ..< m])) = 2 * m" for m
    by (induction m) simp_all
  show "length (xs n) = 2 * n + 1" by (simp add: xs_def len)
  show "xs n ! (2 * n) = a" by (simp add: xs_def nth_append len)
  have body: "j < m \<Longrightarrow> concat (map (\<lambda>k. [a, f k]) [0 ..< m]) ! (2 * j) = a
      \<and> concat (map (\<lambda>k. [a, f k]) [0 ..< m]) ! (2 * j + 1) = f j" for m
  proof (induction m)
    case 0
    then show ?case by simp
  next
    case (Suc m)
    show ?case
    proof (cases "j < m")
      case True
      with Suc.IH show ?thesis by (simp add: nth_append len)
    next
      case False
      with Suc.prems have "j = m" by simp
      then show ?thesis by (simp add: nth_append len)
    qed
  qed
  show "j < n \<Longrightarrow> xs n ! (2 * j) = a \<and> xs n ! (2 * j + 1) = f j"
    using body [of n] by (simp add: xs_def nth_append len)
qed

lemma withRetry_loop_throw_step:
  assumes "i < retries options" and "action (nat i) = Inl e"
    and "onError options = Some f" and "f (asError e) (i + 1) = Some t"
  shows "\<exists>tr2. timeline tr2 = timeline tr @ [ActionCalled] \<and>
     withRetry_loop action options nm tgt i i tr = (Inl t, tr2)"
proof -
  define tr2 where "tr2 = tr @
      (if sa_verbose options
       then [Log Info (nm @ '' attempt '' @ showInt (i + 1) @ ''/'' @ showInt (retries options))
               [(''target'', metaOpt tgt)]]
       else []) @
      [ActionCalled,
       Log Warn (nm @ '' attempt '' @ showInt (i + 1) @ '' failed: '' @ errorMessageOf e)
         [(''target'', metaOpt tgt), (''attempts'', MNum (i + 1)),
          (''isLastAttempt'', MBool (i = retries options - 1))],
       OnErrorCalled (asError e) (i + 1)]"
  have "timeline tr2 = timeline tr @ [ActionCalled]" by (simp add: tr2_def)
  moreover have "withRetry_loop action options nm tgt i i tr = (Inl t, tr2)"
    using assms by (subst withRetry_loop.simps) (simp add: Let_def tr2_def)
  ultimately show ?thesis by blast
qed

lemma withRetry_loop_timeline:
  assumes fail: "\<forall>k < nat (retries options). \<exists>e. action k = Inl e"
  shows "0 \<le> i \<Longrightarrow> i < retries options \<Longrightarrow>
     \<exists>m. nat i \<le> m \<and> m < nat (retries options)
       \<and> timeline (snd (withRetry_loop action options nm tgt i i tr))
           = timeline tr @ concat (map (\<lambda>k. [ActionCalled, SetTimeout (delay options * 2 ^ k)])
                                    [nat i ..< m]) @ [ActionCalled]
       \<and> (\<forall>out. fst (withRetry_loop action options nm tgt i i tr) = Inr out \<longrightarrow>
             m = nat (retries options) - 1 \<and> success out = False
             \<and> attempts out = retries options)"
proof (induction "nat (retries options - i)" arbitrary: i tr rule: less_induct)
  case less
  have ni: "nat i < nat (retries options)" using less.prems by simp
  with fail obtain e where e: "action (nat i) = Inl e" by blast
  show ?case
  proof (cases "\<exists>f t. onError options = Some f \<and> f (asError e) (i + 1) = Some t")
    case True
    then obtain f t where f: "onError options = Some f" "f (asError e) (i + 1) = Some t" by blast
    from withRetry_loop_throw_step [where i = i and options = options and action = action
        and e = e and tr = tr and nm = nm and tgt = tgt, OF less.prems(2) e f]
    obtain tr2 where "timeline tr2 = timeline tr @ [ActionCalled]"
      "withRetry_loop action options nm tgt i i tr = (Inl t, tr2)" by blast
    with ni show ?thesis by (intro exI [of _ "nat i"]) simp
  next
    case False
    then have q: "\<forall>f. onError options = Some f \<longrightarrow> f (asError e) (i + 1) = None" by auto
    from withRetry_loop_fail_step [where i = i and options = options and action = action
        and e = e and tr = tr and nm = nm and tgt = tgt, OF less.prems(2) e q]
    obtain tr2 where tl: "timeline tr2 = timeline tr @ [ActionCalled]"
      and st: "withRetry_loop action options nm tgt i i tr =
         (if i = retries options - 1
          then (Inr \<lparr>success = False, val = None, err = Some (finalErrorOf nm tgt (i + 1) e),
                     attempts = i + 1\<rparr>,
                tr2 @ [Log Error (nm @ '' failed permanently'')
                         [(''target'', metaOpt tgt), (''attempts'', MNum (i + 1))]])
          else withRetry_loop action options nm tgt (i + 1) (i + 1)
                 (tr2 @ [SetTimeout (delay options * 2 ^ nat i)]))"
      by blast
    show ?thesis
    proof (cases "i = retries options - 1")
      case True
      then have R: "retries options = i + 1" by simp
      have n1: "nat i = nat (retries options) - 1" unfolding R using less.prems by simp
      have "withRetry_loop action options nm tgt i i tr =
          (Inr \<lparr>success = False, val = None, err = Some (finalErrorOf nm tgt (i + 1) e),
                attempts = i + 1\<rparr>,
           tr2 @ [Log Error (nm @ '' failed permanently'')
                    [(''target'', metaOpt tgt), (''attempts'', MNum (i + 1))]])"
        using st R by simp
      with tl ni n1 R show ?thesis by (intro exI [of _ "nat i"]) simp
    next
      case False
      have m: "nat (retries options - (i + 1)) < nat (retries options - i)"
        using less.prems by linarith
      have b: "0 \<le> i + 1" "i + 1 < retries options" using less.prems False by linarith+
      from less.hyps [OF m b, of "tr2 @ [SetTimeout (delay options * 2 ^ nat i)]"]
      obtain m where m: "nat (i + 1) \<le> m" "m < nat (retries options)"
        and t: "timeline (snd (withRetry_loop action options nm tgt (i + 1) (i + 1)
                  (tr2 @ [SetTimeout (delay options * 2 ^ nat i)])))
           = timeline (tr2 @ [SetTimeout (delay options * 2 ^ nat i)])
             @ concat (map (\<lambda>k. [ActionCalled, SetTimeout (delay options * 2 ^ k)])
                         [nat (i + 1) ..< m]) @ [ActionCalled]"
        and o: "\<forall>out. fst (withRetry_loop action options nm tgt (i + 1) (i + 1)
                  (tr2 @ [SetTimeout (delay options * 2 ^ nat i)])) = Inr out \<longrightarrow>
             m = nat (retries options) - 1 \<and> success out = False
             \<and> attempts out = retries options"
        by blast
      have s: "nat (i + 1) = Suc (nat i)" using less.prems by simp
      have u: "[nat i ..< m] = nat i # [nat (i + 1) ..< m]"
        using m(1) s by (simp add: upt_conv_Cons)
      have eq: "withRetry_loop action options nm tgt i i tr
          = withRetry_loop action options nm tgt (i + 1) (i + 1)
              (tr2 @ [SetTimeout (delay options * 2 ^ nat i)])"
        using st False by simp
      have "timeline (snd (withRetry_loop action options nm tgt i i tr))
           = timeline tr @ concat (map (\<lambda>k. [ActionCalled, SetTimeout (delay options * 2 ^ k)])
                                    [nat i ..< m]) @ [ActionCalled]"
        unfolding eq t u using tl by simp
      moreover have "nat i \<le> m" using m(1) s by simp
      ultimately show ?thesis using m(2) o unfolding eq by blast
    qed
  qed
qed

text \<open>
  C3. For every \<open>retries = R \<ge> 1\<close> and \<open>delay = d\<close>, when the action fails in every attempt,
  the calls of the action and the timers requested by \<^verbatim>\<open>withRetry\<close> alternate as attempt,
  \<open>d\<close>, attempt, \<open>2d\<close>, ..., attempt: between attempt \<open>k\<close> and attempt \<open>k + 1\<close> exactly one
  timer is requested, of \<open>d * 2^(k - 1)\<close> milliseconds. An outcome that is returned comes after
  all \<open>R\<close> attempts and has \<open>success = false\<close> and \<open>attempts = R\<close>; an outcome is returned
  whenever the optional error callback does not throw.
\<close>

theorem C3_backoff:
  assumes "1 \<le> retries options"
    and "\<forall>k < nat (retries options). \<exists>e. action k = Inl e"
  shows "\<exists>m < nat (retries options).
       timeline (snd (withRetry action options nm tgt))
         = concat (map (\<lambda>k. [ActionCalled, SetTimeout (delay options * 2 ^ k)]) [0 ..< m])
           @ [ActionCalled]
     \<and> (\<forall>k. 1 \<le> k \<and> k \<le> m \<longrightarrow>
           timeline (snd (withRetry action options nm tgt)) ! (2 * k - 2) = ActionCalled
         \<and> timeline (snd (withRetry action options nm tgt)) ! (2 * k - 1)
             = SetTimeout (delay options * 2 ^ (k - 1))
         \<and> timeline (snd (withRetry action options nm tgt)) ! (2 * k) = ActionCalled)
     \<and> (\<forall>out. fst (withRetry action options nm tgt) = Inr out \<longrightarrow>
           m = nat (retries options) - 1 \<and> success out = False
           \<and> attempts out = retries options)
     \<and> ((\<forall>f. onError options = Some f \<longrightarrow> (\<forall>e a. f e a = None)) \<longrightarrow>
           (\<exists>out. fst (withRetry action options nm tgt) = Inr out))"
proof -
  have b: "(0::int) \<le> 0" "0 < retries options" using assms(1) by simp_all
  from withRetry_loop_timeline [OF assms(2) b, of nm tgt "[]"]
  obtain m where m: "m < nat (retries options)"
    and t: "timeline (snd (withRetry action options nm tgt))
         = concat (map (\<lambda>k. [ActionCalled, SetTimeout (delay options * 2 ^ k)]) [0 ..< m])
           @ [ActionCalled]"
    and o: "\<forall>out. fst (withRetry action options nm tgt) = Inr out \<longrightarrow>
           m = nat (retries options) - 1 \<and> success out = False
           \<and> attempts out = retries options"
    unfolding withRetry_def by auto
  have nth: "timeline (snd (withRetry action options nm tgt)) ! (2 * k - 2) = ActionCalled
         \<and> timeline (snd (withRetry action options nm tgt)) ! (2 * k - 1)
             = SetTimeout (delay options * 2 ^ (k - 1))
         \<and> timeline (snd (withRetry action options nm tgt)) ! (2 * k) = ActionCalled"
    if k: "1 \<le> k \<and> k \<le> m" for k
  proof -
    have j: "k - 1 < m" using k by linarith
    have e1: "2 * k - 2 = 2 * (k - 1)" and e2: "2 * k - 1 = 2 * (k - 1) + 1" using k by linarith+
    note A = alternating_nth(2) [OF j, of ActionCalled "\<lambda>k. SetTimeout (delay options * 2 ^ k)"]
    have "timeline (snd (withRetry action options nm tgt)) ! (2 * k) = ActionCalled"
    proof (cases "k < m")
      case True
      from alternating_nth(2) [OF True, of ActionCalled "\<lambda>k. SetTimeout (delay options * 2 ^ k)"]
      show ?thesis unfolding t by simp
    next
      case False
      with k have "k = m" by linarith
      then show ?thesis unfolding t
        using alternating_nth(3) [of ActionCalled "\<lambda>k. SetTimeout (delay options * 2 ^ k)" m]
        by simp
    qed
    with A show ?thesis unfolding t e1 e2 by simp
  qed
  have q: "\<exists>out. fst (withRetry action options nm tgt) = Inr out"
    if "\<forall>f. onError options = Some f \<longrightarrow> (\<forall>e a. f e a = None)"
  proof -
    from withRetry_loop_outcome [OF b, of action nm tgt "[]"] that
    show ?thesis unfolding withRetry_def
      by (cases "fst (withRetry_loop action options nm tgt 0 0 [])") auto
  qed
  from m t o nth q show ?thesis by blast
qed

theorem C3_backoff_witness:
  "fst (withRetry (alwaysFailing ''no'') (DEFAULT_OPTIONS\<lparr>delay := 100\<rparr>) ''Click''
          (Some ''#submit''))
     = Inr \<lparr>success = False, val = None,
            err = Some (finalErrorOf ''Click'' (Some ''#submit'') 3 (ErrorObj ''no'')),
            attempts = 3\<rparr>
   \<and> timeline (snd (withRetry (alwaysFailing ''no'') (DEFAULT_OPTIONS\<lparr>delay := 100\<rparr>) ''Click''
                      (Some ''#submit'')))
     = [ActionCalled, SetTimeout 100, ActionCalled, SetTimeout 200, ActionCalled]"
proof -
  have h1: "1 \<le> retries (DEFAULT_OPTIONS\<lparr>delay := 100\<rparr>)" by (simp add: DEFAULT_OPTIONS_def)
  have h2: "\<forall>k < nat (retries (DEFAULT_OPTIONS\<lparr>delay := 100\<rparr>)). \<exists>e. alwaysFailing ''no'' k = Inl e"
    by (simp add: alwaysFailing_def)
  have r: "fst (withRetry (alwaysFailing ''no'') (DEFAULT_OPTIONS\<lparr>delay := 100\<rparr>) ''Click''
          (Some ''#submit''))
     = Inr \<lparr>success = False, val = None,
            err = Some (finalErrorOf ''Click'' (Some ''#submit'') 3 (ErrorObj ''no'')),
            attempts = 3\<rparr>"
    by code_simp
  have u: "[0 ..< 2 :: nat] = [0, 1]" by (simp add: upt_rec)
  from C3_backoff [OF h1 h2, of "''Click''" "Some ''#submit''"]
  obtain m where
    t: "timeline (snd (withRetry (alwaysFailing ''no'') (DEFAULT_OPTIONS\<lparr>delay := 100\<rparr>) ''Click''
                      (Some ''#submit'')))
         = concat (map (\<lambda>k. [ActionCalled, SetTimeout (delay (DEFAULT_OPTIONS\<lparr>delay := 100\<rparr>) * 2 ^ k)])
                     [0 ..< m]) @ [ActionCalled]"
    and o: "\<forall>out. fst (withRetry (alwaysFailing ''no'') (DEFAULT_OPTIONS\<lparr>delay := 100\<rparr>) ''Click''
          (Some ''#submit'')) = Inr out \<longrightarrow>
           m = nat (retries (DEFAULT_OPTIONS\<lparr>delay := 100\<rparr>)) - 1"
    by blast
  from o r have "m = 2" by (simp add: DEFAULT_OPTIONS_def)
  with t r show ?thesis by (simp add: u DEFAULT_OPTIONS_def)
qed

text \<open>A value thrown by the error callback leaves \<^verbatim>\<open>withRetry\<close> as it is.\<close>

lemma withRetry_callback_throw:
  assumes "1 \<le> retries options" and "action 0 = Inl e"
    and "onError options = Some f" and "f (asError e) 1 = Some t"
  shows "fst (withRetry action options nm tgt) = Inl t"
  using assms unfolding withRetry_def
  by (subst withRetry_loop.simps) (simp add: Let_def)



section \<open>Placeholder resolution: proofs\<close>

lemma stripPrefix_Some_iff: "stripPrefix p s = Some u \<longleftrightarrow> s = p @ u"
  by (induction p s rule: stripPrefix.induct) auto

lemma stripPrefix_append_dollar:
  assumes "CHR ''$'' \<notin> set (tl p)" and "s \<noteq> []"
  shows "stripPrefix p (s @ CHR ''$'' # w) = map_option (\<lambda>r. r @ CHR ''$'' # w) (stripPrefix p s)"
  using assms
proof (induction p s rule: stripPrefix.induct)
  case (1 s)
  then show ?case by simp
next
  case (2 p ps)
  then show ?case by simp
next
  case (3 p ps c cs)
  show ?case
  proof (cases "p = c")
    case False
    then show ?thesis by simp
  next
    case True
    show ?thesis
    proof (cases cs)
      case Nil
      show ?thesis
      proof (cases ps)
        case Nil
        with True \<open>cs = []\<close> show ?thesis by simp
      next
        case (Cons q qs)
        with 3(2) have "q \<noteq> CHR ''$''" by auto
        with True \<open>cs = []\<close> Cons show ?thesis by simp
      qed
    next
      case (Cons d ds)
      have "CHR ''$'' \<notin> set (tl ps)" using 3(2) by (cases ps) auto
      with 3(1) [OF True] Cons True show ?thesis by simp
    qed
  qed
qed

lemma dollar_not_key [simp]: "\<not> isKeyChar (CHR ''$'')"
  by (simp add: isKeyChar_def)

lemma brace_not_key [simp]: "\<not> isKeyChar (CHR ''}'')"
  by (simp add: isKeyChar_def)

lemma matchPlaceholder_no_dollar:
  "ch \<noteq> CHR ''$'' \<Longrightarrow> matchPlaceholder (ch # cs) = None"
  by (simp add: matchPlaceholder_def)

lemma matchPlaceholder_append_dollar:
  assumes "s \<noteq> []"
  shows "matchPlaceholder (s @ CHR ''$'' # w)
       = map_option (\<lambda>(k, r). (k, r @ CHR ''$'' # w)) (matchPlaceholder s)"
proof (cases "stripPrefix ''${CONFIG.'' s")
  case None
  with stripPrefix_append_dollar [of "''${CONFIG.''" s w] assms
  show ?thesis by (simp add: matchPlaceholder_def)
next
  case (Some t)
  with stripPrefix_append_dollar [of "''${CONFIG.''" s w] assms
  have sp: "stripPrefix ''${CONFIG.'' (s @ CHR ''$'' # w) = Some (t @ CHR ''$'' # w)" by simp
  show ?thesis
  proof (cases "\<forall>c \<in> set t. isKeyChar c")
    case True
    then have d: "dropWhile isKeyChar (t @ CHR ''$'' # w) = CHR ''$'' # w"
      by (simp add: dropWhile_append)
    from True have dn: "dropWhile isKeyChar t = []" by (simp add: dropWhile_eq_Nil_conv)
    have "matchPlaceholder (s @ CHR ''$'' # w) = None"
      by (simp add: matchPlaceholder_def sp d)
    moreover have "matchPlaceholder s = None"
      by (simp add: matchPlaceholder_def Some dn)
    ultimately show ?thesis by simp
  next
    case False
    then have d: "dropWhile isKeyChar (t @ CHR ''$'' # w) = dropWhile isKeyChar t @ CHR ''$'' # w"
      and k: "takeWhile isKeyChar (t @ CHR ''$'' # w) = takeWhile isKeyChar t"
      by (auto simp: dropWhile_append takeWhile_append)
    from False have "dropWhile isKeyChar t \<noteq> []" by (simp add: dropWhile_eq_Nil_conv)
    then obtain c r where r: "dropWhile isKeyChar t = c # r" by (cases "dropWhile isKeyChar t") auto
    with Some sp d k show ?thesis by (simp add: matchPlaceholder_def Let_def)
  qed
qed

lemma matchPlaceholder_shorter:
  "matchPlaceholder s = Some (k, r) \<Longrightarrow> length r < length s"
proof -
  assume "matchPlaceholder s = Some (k, r)"
  then obtain t where t: "stripPrefix ''${CONFIG.'' s = Some t"
      and d: "dropWhile isKeyChar t = CHR ''}'' # r"
    by (auto simp: matchPlaceholder_def Let_def split: option.splits list.splits if_splits)
  have "length (dropWhile isKeyChar t) \<le> length t" by (rule length_dropWhile_le)
  moreover have "length s = length ''${CONFIG.'' + length t"
    using t by (simp add: stripPrefix_Some_iff)
  ultimately show ?thesis using d by simp
qed

lemma interpolate_append_dollar:
  "interpolateConfigPlaceholders C (s @ CHR ''$'' # w) =
     (case interpolateConfigPlaceholders C s of
        Inl e \<Rightarrow> Inl e
      | Inr a \<Rightarrow> (case interpolateConfigPlaceholders C (CHR ''$'' # w) of
                    Inl e \<Rightarrow> Inl e
                  | Inr b \<Rightarrow> Inr (a @ b)))"
proof (induction "length s" arbitrary: s rule: less_induct)
  case less
  show ?case
  proof (cases s)
    case Nil
    then show ?thesis by (simp split: sum.splits)
  next
    case (Cons ch cs)
    then have ne: "s \<noteq> []" by simp
    note m = matchPlaceholder_append_dollar [OF ne, of w]
    show ?thesis
    proof (cases "matchPlaceholder s")
      case None
      have "length cs < length s" using Cons by simp
      from less [OF this] None m Cons show ?thesis
        by (simp split: sum.splits)
    next
      case (Some kr)
      obtain k r where kr: "kr = (k, r)" by (cases kr)
      with Some have "length r < length s" by (simp add: matchPlaceholder_shorter)
      from less [OF this] Some m Cons kr show ?thesis
        by (simp split: sum.splits)
    qed
  qed
qed


lemma interpolate_no_dollar:
  "CHR ''$'' \<notin> set u \<Longrightarrow>
   interpolateConfigPlaceholders C (u @ v) =
     (case interpolateConfigPlaceholders C v of Inl e \<Rightarrow> Inl e | Inr b \<Rightarrow> Inr (u @ b))"
  by (induction u) (auto simp: matchPlaceholder_no_dollar split: sum.splits)

lemma matchPlaceholder_unrecognised:
  assumes "\<exists>c \<in> set key. \<not> isKeyChar c" and "CHR ''}'' \<notin> set key"
  shows "matchPlaceholder (''${CONFIG.'' @ key @ ''}'' @ post) = None"
proof -
  have sp: "stripPrefix ''${CONFIG.'' (''${CONFIG.'' @ key @ CHR ''}'' # post)
      = Some (key @ CHR ''}'' # post)"
    by (simp add: stripPrefix_Some_iff)
  from assms(1) have ne: "dropWhile isKeyChar key \<noteq> []" by (simp add: dropWhile_eq_Nil_conv)
  then obtain c r where cr: "dropWhile isKeyChar key = c # r"
    by (cases "dropWhile isKeyChar key") auto
  have "c \<in> set key" using cr set_dropWhileD [of c isKeyChar key] by simp
  with assms(2) have c: "c \<noteq> CHR ''}''" by auto
  from assms(1) have "dropWhile isKeyChar (key @ CHR ''}'' # post)
      = dropWhile isKeyChar key @ CHR ''}'' # post"
    by (auto simp: dropWhile_append)
  with cr have d: "dropWhile isKeyChar (key @ CHR ''}'' # post) = c # r @ CHR ''}'' # post"
    by simp
  have "matchPlaceholder (''${CONFIG.'' @ key @ CHR ''}'' # post) = None"
    unfolding matchPlaceholder_def sp by (simp add: d c Let_def)
  then show ?thesis by simp
qed

lemma interpolate_no_match:
  "\<forall>a s. u = a @ s \<and> s \<noteq> [] \<longrightarrow> matchPlaceholder (s @ v) = None \<Longrightarrow>
   interpolateConfigPlaceholders C (u @ v) =
     (case interpolateConfigPlaceholders C v of Inl e \<Rightarrow> Inl e | Inr b \<Rightarrow> Inr (u @ b))"
proof (induction u)
  case Nil
  show ?case by (simp split: sum.splits)
next
  case (Cons ch u)
  from Cons.prems [rule_format, of "[]" "ch # u"]
  have m: "matchPlaceholder (ch # u @ v) = None" by simp
  have "\<forall>a s. u = a @ s \<and> s \<noteq> [] \<longrightarrow> matchPlaceholder (s @ v) = None"
  proof (intro allI impI)
    fix a s assume "u = a @ s \<and> s \<noteq> []"
    then have "ch # u = (ch # a) @ s \<and> s \<noteq> []" by simp
    with Cons.prems show "matchPlaceholder (s @ v) = None" by blast
  qed
  from Cons.IH [OF this] m show ?case by (simp split: sum.splits)
qed

lemma append_eq_append_cases:
  "s @ w = p @ t \<Longrightarrow> (\<exists>us. s = p @ us \<and> us @ w = t) \<or> (\<exists>us. s @ us = p \<and> w = us @ t)"
  by (auto simp: append_eq_append_conv2)

lemma matchPlaceholder_inside_key:
  assumes "\<forall>a b. key \<noteq> a @ ''${CONFIG.'' @ b" and "key = a @ s" and "s \<noteq> []"
  shows "matchPlaceholder (s @ CHR ''}'' # post) = None"
proof -
  have "stripPrefix ''${CONFIG.'' (s @ CHR ''}'' # post) = None"
  proof (rule ccontr)
    assume "stripPrefix ''${CONFIG.'' (s @ CHR ''}'' # post) \<noteq> None"
    then obtain t where "stripPrefix ''${CONFIG.'' (s @ CHR ''}'' # post) = Some t" by blast
    then have "s @ CHR ''}'' # post = ''${CONFIG.'' @ t" by (simp only: stripPrefix_Some_iff)
    from append_eq_append_cases [OF this]
    obtain us where "(s = ''${CONFIG.'' @ us \<and> us @ CHR ''}'' # post = t)
        \<or> (s @ us = ''${CONFIG.'' \<and> CHR ''}'' # post = us @ t)"
      by blast
    then show False
    proof
      assume "s = ''${CONFIG.'' @ us \<and> us @ CHR ''}'' # post = t"
      with assms(2) have "key = a @ ''${CONFIG.'' @ us" by simp
      with assms(1) show False by blast
    next
      assume h: "s @ us = ''${CONFIG.'' \<and> CHR ''}'' # post = us @ t"
      show False
      proof (cases us)
        case Nil
        with h assms(2) have "key = a @ ''${CONFIG.'' @ []" by simp
        with assms(1) show False by blast
      next
        case (Cons c us')
        with h have "c = CHR ''}''" by simp
        with Cons have "CHR ''}'' \<in> set (s @ us)" by simp
        with h show False by simp
      qed
    qed
  qed
  then show ?thesis by (simp add: matchPlaceholder_def)
qed

lemma interpolate_unrecognised:
  assumes "\<exists>c \<in> set key. \<not> isKeyChar c" and "CHR ''}'' \<notin> set key"
    and "\<forall>a b. key \<noteq> a @ ''${CONFIG.'' @ b"
  shows "interpolateConfigPlaceholders C (''${CONFIG.'' @ key @ ''}'' @ post) =
     (case interpolateConfigPlaceholders C post of
        Inl e \<Rightarrow> Inl e
      | Inr b \<Rightarrow> Inr (''${CONFIG.'' @ key @ ''}'' @ b))"
proof -
  have m: "matchPlaceholder (CHR ''$'' # ''{CONFIG.'' @ key @ CHR ''}'' # post) = None"
    using matchPlaceholder_unrecognised [OF assms(1,2), of post] by simp
  have s1: "interpolateConfigPlaceholders C (''{CONFIG.'' @ (key @ CHR ''}'' # post))
      = (case interpolateConfigPlaceholders C (key @ CHR ''}'' # post) of
           Inl e \<Rightarrow> Inl e | Inr b \<Rightarrow> Inr (''{CONFIG.'' @ b))"
    by (rule interpolate_no_dollar) simp
  have "\<forall>a s. key = a @ s \<and> s \<noteq> [] \<longrightarrow> matchPlaceholder (s @ CHR ''}'' # post) = None"
    using matchPlaceholder_inside_key [OF assms(3)] by blast
  from interpolate_no_match [OF this]
  have s2: "interpolateConfigPlaceholders C (key @ CHR ''}'' # post)
      = (case interpolateConfigPlaceholders C (CHR ''}'' # post) of
           Inl e \<Rightarrow> Inl e | Inr b \<Rightarrow> Inr (key @ b))" .
  have s3: "interpolateConfigPlaceholders C (CHR ''}'' # post)
      = (case interpolateConfigPlaceholders C post of
           Inl e \<Rightarrow> Inl e | Inr b \<Rightarrow> Inr (CHR ''}'' # b))"
    by (simp add: matchPlaceholder_no_dollar)
  have s0: "interpolateConfigPlaceholders C (CHR ''$'' # ''{CONFIG.'' @ key @ CHR ''}'' # post)
      = (case interpolateConfigPlaceholders C (''{CONFIG.'' @ (key @ CHR ''}'' # post)) of
           Inl e \<Rightarrow> Inl e | Inr b \<Rightarrow> Inr (CHR ''$'' # b))"
    using m by (simp only: interpolateConfigPlaceholders.simps option.case)
  have e: "''${CONFIG.'' @ key @ ''}'' @ post = CHR ''$'' # ''{CONFIG.'' @ key @ CHR ''}'' # post"
    by simp
  show ?thesis unfolding e s0 s1 s2 s3 by (simp split: sum.splits)
qed

text \<open>
  C10. The replacement only matches \<^verbatim>\<open>${CONFIG.KEY}\<close> with \<open>KEY\<close> a non-empty run of upper
  case letters, digits and underscores. For every template, a placeholder-like text
  \<^verbatim>\<open>${CONFIG.key}\<close> whose key has some other character (the key is read up to its closing
  brace and does not itself contain \<^verbatim>\<open>${CONFIG.\<close>) is copied to the result unchanged and
  raises no error:
  the result is that of the text before it, the placeholder-like text itself, and the result
  of the text after it; the only errors are those of the text before or after.
\<close>

theorem C10_unrecognised_placeholder_verbatim:
  assumes "\<exists>c \<in> set key. \<not> isKeyChar c"
    and "CHR ''}'' \<notin> set key" and "\<forall>a b. key \<noteq> a @ ''${CONFIG.'' @ b"
  shows "interpolateConfigPlaceholders C (pre @ ''${CONFIG.'' @ key @ ''}'' @ post) =
     (case interpolateConfigPlaceholders C pre of
        Inl e \<Rightarrow> Inl e
      | Inr a \<Rightarrow>
          (case interpolateConfigPlaceholders C post of
             Inl e \<Rightarrow> Inl e
           | Inr b \<Rightarrow> Inr (a @ ''${CONFIG.'' @ key @ ''}'' @ b)))"
proof -
  have e: "pre @ ''${CONFIG.'' @ key @ ''}'' @ post
      = pre @ CHR ''$'' # (''{CONFIG.'' @ key @ ''}'' @ post)" by simp
  have u: "interpolateConfigPlaceholders C (CHR ''$'' # (''{CONFIG.'' @ key @ ''}'' @ post)) =
     (case interpolateConfigPlaceholders C post of
        Inl e \<Rightarrow> Inl e
      | Inr b \<Rightarrow> Inr (''${CONFIG.'' @ key @ ''}'' @ b))"
    using interpolate_unrecognised [OF assms, of C post] by simp
  show ?thesis
    unfolding e interpolate_append_dollar u by (simp split: sum.splits)
qed










theorem C10_unrecognised_placeholder_verbatim_witness:
  "interpolateConfigPlaceholders exampleConfig ''go to ${CONFIG.baseUrl} now''
     = Inr ''go to ${CONFIG.baseUrl} now''"
proof -
  have h1: "\<exists>c \<in> set ''baseUrl''. \<not> isKeyChar c" by (simp add: isKeyChar_def)
  have h2: "CHR ''}'' \<notin> set ''baseUrl''" by simp
  have h3: "\<forall>a b. ''baseUrl'' \<noteq> a @ ''${CONFIG.'' @ b"
  proof (intro allI notI)
    fix a b :: string
    assume "''baseUrl'' = a @ ''${CONFIG.'' @ b"
    then have "set ''baseUrl'' = set (a @ ''${CONFIG.'' @ b)" by (rule arg_cong)
    then have "CHR ''$'' \<in> set ''baseUrl''" by simp
    then show False by simp
  qed
  have pre: "interpolateConfigPlaceholders exampleConfig ''go to '' = Inr ''go to ''"
    by (simp add: matchPlaceholder_no_dollar)
  have post: "interpolateConfigPlaceholders exampleConfig '' now'' = Inr '' now''"
    by (simp add: matchPlaceholder_no_dollar)
  have e: "''go to ${CONFIG.baseUrl} now'' = ''go to '' @ ''${CONFIG.'' @ ''baseUrl'' @ ''}'' @ '' now''"
    by simp
  have "interpolateConfigPlaceholders exampleConfig
          (''go to '' @ ''${CONFIG.'' @ ''baseUrl'' @ ''}'' @ '' now'')
      = Inr (''go to '' @ ''${CONFIG.'' @ ''baseUrl'' @ ''}'' @ '' now'')"
    unfolding C10_unrecognised_placeholder_verbatim [OF h1 h2 h3, of exampleConfig "''go to ''" "'' now''"]
      pre post
    by (simp only: sum.case)
  then show ?thesis unfolding e .
qed


section \<open>Orchestrator run: proofs\<close>

lemma runChunk_length [simp]: "length (fst (runChunk C config envs k xs)) = length xs"
  by (induction xs arbitrary: k) (simp_all add: split_def Let_def)

lemma runChunk_nth:
  "i < length xs \<Longrightarrow>
   fst (runChunk C config envs k xs) ! i = (xs ! i, fst (runScenario C (xs ! i) config (envs (k + i))))"
proof (induction xs arbitrary: k i)
  case Nil
  then show ?case by simp
next
  case (Cons x xs)
  show ?case
  proof (cases i)
    case 0
    then show ?thesis by (simp add: split_def Let_def)
  next
    case (Suc i')
    with Cons.prems have "i' < length xs" by simp
    from Cons.IH [OF this, of "Suc k"] Suc show ?thesis by (simp add: split_def Let_def)
  qed
qed

lemma runChunk_append:
  "runChunk C config envs k (xs @ ys) =
     (fst (runChunk C config envs k xs) @ fst (runChunk C config envs (k + length xs) ys),
      snd (runChunk C config envs k xs) @ snd (runChunk C config envs (k + length xs) ys))"
  by (induction xs arbitrary: k) (simp_all add: split_def Let_def)

lemma aggregate_completed:
  "aggregate config st rs = (st', None) \<Longrightarrow>
     passed st' + length (failed st') = passed st + length (failed st) + length rs
     \<and> total st' = total st"
proof (induction rs arbitrary: st)
  case Nil
  then show ?case by simp
next
  case (Cons r rs)
  obtain sc ok where r: "r = (sc, ok)" by (cases r)
  show ?case
  proof (cases ok)
    case True
    with Cons.prems r have "aggregate config (st\<lparr>passed := passed st + 1\<rparr>) rs = (st', None)"
      by simp
    from Cons.IH [OF this] show ?thesis by simp
  next
    case False
    with Cons.prems r have c: "continueOnFailure config"
      by (auto simp: Let_def split: if_splits)
    with Cons.prems r False
    have "aggregate config (st\<lparr>failed := failed st @ [tag sc]\<rparr>) rs = (st', None)"
      by (simp add: Let_def)
    from Cons.IH [OF this] show ?thesis by simp
  qed
qed

lemma aggregate_continue:
  "continueOnFailure config \<Longrightarrow>
   aggregate config st rs =
     (st\<lparr>passed := passed st + length (filter snd rs),
         failed := failed st @ map (\<lambda>r. tag (fst r)) (filter (\<lambda>r. \<not> snd r) rs)\<rparr>, None)"
proof (induction rs arbitrary: st)
  case Nil
  then show ?case by simp
next
  case (Cons r rs)
  obtain sc ok where r: "r = (sc, ok)" by (cases r)
  from Cons show ?case by (cases ok) (simp_all add: r Let_def)
qed




lemma processChunks_completed:
  "processChunks C config envs k st tr chunks = (st', None, k', tr') \<Longrightarrow>
     passed st' + length (failed st') = passed st + length (failed st) + length (concat chunks)
     \<and> total st' = total st \<and> k' = k + length (concat chunks)"
proof (induction chunks arbitrary: k st tr)
  case Nil
  then show ?case by simp
next
  case (Cons chunk chunks)
  obtain st1 e where a: "aggregate config st (fst (runChunk C config envs k chunk)) = (st1, e)"
    by force
  show ?case
  proof (cases e)
    case (Some err)
    with Cons.prems a show ?thesis by (simp add: split_def Let_def)
  next
    case None
    with Cons.prems a have "processChunks C config envs (k + length chunk) st1
        (tr @ snd (runChunk C config envs k chunk)) chunks = (st', None, k', tr')"
      by (simp add: split_def Let_def)
    from Cons.IH [OF this] aggregate_completed [OF a [unfolded None]]
    show ?thesis by simp
  qed
qed

lemma processChunks_continue:
  assumes "continueOnFailure config"
  shows "processChunks C config envs k st tr chunks =
     (fst (aggregate config st (fst (runChunk C config envs k (concat chunks)))), None,
      k + length (concat chunks), tr @ snd (runChunk C config envs k (concat chunks)))"
proof (induction chunks arbitrary: k st tr)
  case Nil
  show ?case by simp
next
  case (Cons chunk chunks)
  show ?case
    by (simp add: split_def Let_def aggregate_continue [OF assms] runChunk_append Cons.IH
          add.assoc)
qed




lemma chunk_loop_returns_positive:
  assumes "chunk_loop xs c i acc = Some y" and "i < int (length xs)"
  shows "1 \<le> c"
proof -
  have step: "\<not> (c \<le> 0 \<and> i < int (length xs))"
    if IH: "\<And>xs' c' i' acc' y'. f xs' c' i' acc' = Some y' \<Longrightarrow>
        \<not> (c' \<le> 0 \<and> i' < int (length xs'))"
      and body: "(if i < int (length xs)
                  then f xs c (i + c) (acc @ [slice xs i (i + c)])
                  else Some acc) = Some y"
    for f :: "'a list \<Rightarrow> int \<Rightarrow> int \<Rightarrow> 'a list list \<Rightarrow> 'a list list option"
      and xs c i acc y
  proof
    assume h: "c \<le> 0 \<and> i < int (length xs)"
    with body have "f xs c (i + c) (acc @ [slice xs i (i + c)]) = Some y" by simp
    from IH [OF this] h show False by simp
  qed
  have "\<not> (c \<le> 0 \<and> i < int (length xs))"
    by (rule chunk_loop.raw_induct
          [where P = "\<lambda>xs c i acc y. \<not> (c \<le> 0 \<and> i < int (length xs))", OF step assms(1)])
  with assms(2) show ?thesis by simp
qed

lemma makeChunks_returns:
  assumes "makeChunks xs c = Some chunks" and "xs \<noteq> []"
  shows "1 \<le> c \<and> chunks = chunks_spec (nat c) xs"
proof -
  from assms have "1 \<le> c"
    unfolding makeChunks_def by (auto dest: chunk_loop_returns_positive)
  with assms(1) makeChunks_spec [of c xs] show ?thesis by simp
qed

lemma parseArgs_tag: "parseArgs argv2 argv3 envENV = Inr (t, n) \<Longrightarrow> t = argv2"
  by (auto simp: parseArgs_def Let_def split: if_splits)


lemma main_run:
  assumes p: "parseArgs argv2 argv3 envENV = Inr (argv2, n)"
    and ne: "selectScenarios argv2 prompts \<noteq> []"
    and mk: "makeChunks (selectScenarios argv2 prompts) (concurrency (effective config)) = Some chunks"
    and pc: "processChunks C (effective config) envs 0
               \<lparr>total = length (selectScenarios argv2 prompts), passed = 0, failed = []\<rparr>
               [startLog argv2 n] chunks = (st, e, k, tr)"
  shows "\<exists>r. main C prompts argv2 argv3 envENV config envs = Some r
     \<and> stats r = Some st \<and> caught r = e \<and> started r = k
     \<and> ending r = (if e = None \<and> failed st = [] then Returned else ProcessExit 1)
     \<and> (\<forall>err. e = Some err \<longrightarrow> r = mainCatch err (Some st) k tr)"
proof (cases e)
  case None
  with p ne mk pc show ?thesis
    by (simp add: main_def Let_def startLog_def)
next
  case (Some err)
  with p ne mk pc show ?thesis
    by (simp add: main_def Let_def startLog_def mainCatch_def)
qed

lemma aggregate_completed_exact:
  "aggregate config st rs = (st', None) \<Longrightarrow>
     st' = st\<lparr>passed := passed st + length (filter snd rs),
              failed := failed st @ map (\<lambda>r. tag (fst r)) (filter (\<lambda>r. \<not> snd r) rs)\<rparr>"
proof (induction rs arbitrary: st)
  case Nil
  then show ?case by simp
next
  case (Cons r rs)
  obtain sc ok where r: "r = (sc, ok)" by (cases r)
  show ?case
  proof (cases ok)
    case True
    with Cons.prems r have "aggregate config (st\<lparr>passed := passed st + 1\<rparr>) rs = (st', None)"
      by simp
    from Cons.IH [OF this] True r show ?thesis by simp
  next
    case False
    with Cons.prems r have c: "continueOnFailure config"
      by (auto simp: Let_def split: if_splits)
    with Cons.prems r False
    have "aggregate config (st\<lparr>failed := failed st @ [tag sc]\<rparr>) rs = (st', None)"
      by (simp add: Let_def)
    from Cons.IH [OF this] False r show ?thesis by simp
  qed
qed

lemma processChunks_completed_exact:
  "processChunks C config envs k st tr chunks = (st', None, k', tr') \<Longrightarrow>
     st' = st\<lparr>passed := passed st
                  + length (filter snd (fst (runChunk C config envs k (concat chunks)))),
              failed := failed st
                  @ map (\<lambda>r. tag (fst r))
                      (filter (\<lambda>r. \<not> snd r) (fst (runChunk C config envs k (concat chunks))))\<rparr>"
proof (induction chunks arbitrary: k st tr)
  case Nil
  then show ?case by simp
next
  case (Cons chunk chunks)
  obtain st1 e where a: "aggregate config st (fst (runChunk C config envs k chunk)) = (st1, e)"
    by force
  show ?case
  proof (cases e)
    case (Some err)
    with Cons.prems a show ?thesis by (simp add: split_def Let_def)
  next
    case None
    with Cons.prems a have "processChunks C config envs (k + length chunk) st1
        (tr @ snd (runChunk C config envs k chunk)) chunks = (st', None, k', tr')"
      by (simp add: split_def Let_def)
    from Cons.IH [OF this] aggregate_completed_exact [OF a [unfolded None]]
    show ?thesis by (simp add: runChunk_append)
  qed
qed

lemma runChunk_map_fst: "map fst (fst (runChunk C config envs k xs)) = xs"
  by (induction xs arbitrary: k) (simp_all add: split_def Let_def)

text \<open>
  When the timer is the first of the two raced promises to settle, the scenario fails with
  the time-out message, whatever the number of retry attempts.
\<close>

lemma runScenario_timer_first:
  assumes "\<not> aborted env" and "trim (prompt sc) \<noteq> []"
    and "interpolateConfigPlaceholders C (prompt sc) = Inr expanded"
    and "settles env = TimerFirst"
  shows "runScenario C sc cfg env =
     (False, [Log Info (''Running scenario: '' @ tag sc @ '' - '' @ description sc) [],
              SetTimeout (scenarioTimeout cfg),
              RunWithRetriesCalled expanded (tag sc) (retryAttempts cfg),
              Log Error (''Scenario '' @ tag sc @ '' failed: Scenario timed out after ''
                           @ showInt (scenarioTimeout cfg) @ ''ms'') []])"
  using assms by (simp add: runScenario_def scenarioFailed_def)

text \<open>
  C8. For every completed run of \<^verbatim>\<open>main\<close> (it returned statistics and threw nothing out of the
  chunk loop), the final statistics satisfy \<open>passed + failed.length = total\<close>, where \<open>total\<close>
  is the number of selected scenarios: each selected scenario was run once and has exactly
  one result, \<open>passed\<close> counts the results that are true and \<open>failed\<close> lists, in order, the
  tags of those that are false.
\<close>

theorem C8_completed_run_counts:
  assumes "main C prompts argv2 argv3 envENV config envs = Some r"
    and "caught r = None" and "stats r = Some st"
    and xs: "xs = selectScenarios argv2 prompts"
    and rs: "rs = fst (runChunk C (effective config) envs 0 xs)"
  shows "passed st + length (failed st) = total st
     \<and> total st = length xs
     \<and> started r = total st
     \<and> map fst rs = xs
     \<and> passed st = length (filter snd rs)
     \<and> failed st = map (\<lambda>r. tag (fst r)) (filter (\<lambda>r. \<not> snd r) rs)"
proof (cases "parseArgs argv2 argv3 envENV")
  case (Inl e)
  with assms(1) have "r = mainCatch e None 0 []" by (simp add: main_def)
  with assms(2) show ?thesis by (simp add: mainCatch_def)
next
  case (Inr tn)
  obtain t n where tn: "tn = (t, n)" by (cases tn)
  with Inr have "t = argv2" by (simp add: parseArgs_tag)
  with Inr tn have p: "parseArgs argv2 argv3 envENV = Inr (argv2, n)" by simp
  show ?thesis
  proof (cases "selectScenarios argv2 prompts = []")
    case True
    with assms(1) p have "stats r = None" by (auto simp: main_def Let_def)
    with assms(3) show ?thesis by simp
  next
    case False
    show ?thesis
    proof (cases "makeChunks (selectScenarios argv2 prompts) (concurrency (effective config))")
      case None
      with assms(1) p False show ?thesis by (simp add: main_def Let_def)
    next
      case (Some chunks)
      from makeChunks_returns [OF Some False]
      have c: "1 \<le> concurrency (effective config)"
        and ch: "chunks = chunks_spec (nat (concurrency (effective config)))
                   (selectScenarios argv2 prompts)" by simp_all
      have cc: "concat chunks = selectScenarios argv2 prompts"
        unfolding ch using c by (simp add: concat_chunks_spec)
      obtain st' e k tr where pc: "processChunks C (effective config) envs 0
               \<lparr>total = length (selectScenarios argv2 prompts), passed = 0, failed = []\<rparr>
               [startLog argv2 n] chunks = (st', e, k, tr)"
        by (metis prod_cases4)
      from main_run [OF p False Some pc] assms(1)
      have r: "stats r = Some st'" "caught r = e" "started r = k" by auto
      with assms(2,3) have e: "e = None" and st: "st' = st" by simp_all
      from processChunks_completed [OF pc [unfolded e]]
        processChunks_completed_exact [OF pc [unfolded e]] cc r st
      show ?thesis by (simp add: xs rs runChunk_map_fst)
    qed
  qed
qed




lemma example_selected: "selectScenarios None exampleCatalogue = exampleCatalogue"
  by (simp add: selectScenarios_def truthy_def)

lemma example_parse: "parseArgs None None None = Inr (None, ''qa'')"
  by (simp add: parseArgs_def truthy_def)





lemma runScenario_blank:
  "trim (prompt sc) = [] \<Longrightarrow>
   runScenario C sc cfg env =
     (False, [Log Info (''Running scenario: '' @ tag sc @ '' - '' @ description sc) [],
              Log Error (''Scenario '' @ tag sc @ '' failed: ''
                 @ (if aborted env then ''Scenario aborted by user'' else ''Empty prompt'')) []])"
  by (simp add: runScenario_def scenarioFailed_def)

text \<open>
  C9 (amended). A selected scenario with an empty (white space only) prompt fails alone:
  \<^verbatim>\<open>runScenario\<close> answers \<^verbatim>\<open>false\<close> for it without calling the retry runner and logs the
  message \<^verbatim>\<open>Empty prompt\<close> (no details); with \<open>continueOnFailure\<close> true every selected
  scenario is still started, the tag of the blank one is in \<open>failed\<close>, nothing is thrown out of
  the run, and the process exits with code 1 after the summary.
\<close>

theorem C9_empty_prompt_fails_only_its_scenario:
  assumes cfg: "cfg = effective config" and xs: "xs = selectScenarios argv2 prompts"
    and co: "continueOnFailure cfg" and c1: "1 \<le> concurrency cfg"
    and p: "parseArgs argv2 argv3 envENV = Inr (argv2, n)"
    and j: "j < length xs"
    and blank: "trim (prompt (xs ! j)) = []"
  shows "fst (runScenario C (xs ! j) cfg (envs j)) = False
     \<and> (\<forall>ev \<in> set (snd (runScenario C (xs ! j) cfg (envs j))). \<not> isExecution ev)
     \<and> (\<not> aborted (envs j) \<longrightarrow>
          snd (runScenario C (xs ! j) cfg (envs j)) =
            [Log Info (''Running scenario: '' @ tag (xs ! j) @ '' - '' @ description (xs ! j)) [],
             Log Error (''Scenario '' @ tag (xs ! j) @ '' failed: Empty prompt'') []])
     \<and> (\<exists>r st. main C prompts argv2 argv3 envENV config envs = Some r
          \<and> caught r = None \<and> ending r = ProcessExit 1 \<and> started r = length xs
          \<and> stats r = Some st \<and> tag (xs ! j) \<in> set (failed st)
          \<and> passed st + length (failed st) = length xs)"
proof -
  note b = runScenario_blank [OF blank, of C cfg "envs j"]
  have s1: "fst (runScenario C (xs ! j) cfg (envs j)) = False" by (simp add: b)
  have s2: "\<forall>ev \<in> set (snd (runScenario C (xs ! j) cfg (envs j))). \<not> isExecution ev"
    by (simp add: b)
  have s3: "\<not> aborted (envs j) \<longrightarrow>
          snd (runScenario C (xs ! j) cfg (envs j)) =
            [Log Info (''Running scenario: '' @ tag (xs ! j) @ '' - '' @ description (xs ! j)) [],
             Log Error (''Scenario '' @ tag (xs ! j) @ '' failed: Empty prompt'') []]"
    by (simp add: b)
  define c where "c = nat (concurrency cfg)"
  have c0: "0 < c" using c1 by (simp add: c_def)
  have ne: "selectScenarios argv2 prompts \<noteq> []" using j xs by auto
  have mk: "makeChunks (selectScenarios argv2 prompts) (concurrency (effective config))
      = Some (chunks_spec c xs)"
    using makeChunks_spec [OF c1] by (simp add: cfg xs c_def)
  have cc: "concat (chunks_spec c xs) = xs" using c0 by (rule concat_chunks_spec)
  define rs where "rs = fst (runChunk C cfg envs 0 xs)"
  define st where "st = \<lparr>total = length xs, passed = length (filter snd rs),
      failed = map (\<lambda>r. tag (fst r)) (filter (\<lambda>r. \<not> snd r) rs)\<rparr>"
  have pc: "processChunks C (effective config) envs 0
               \<lparr>total = length (selectScenarios argv2 prompts), passed = 0, failed = []\<rparr>
               [startLog argv2 n] (chunks_spec c xs)
      = (st, None, length xs, [startLog argv2 n] @ snd (runChunk C cfg envs 0 xs))"
  proof -
    have "processChunks C cfg envs 0 \<lparr>total = length xs, passed = 0, failed = []\<rparr>
          [startLog argv2 n] (chunks_spec c xs)
        = (fst (aggregate cfg \<lparr>total = length xs, passed = 0, failed = []\<rparr>
                  (fst (runChunk C cfg envs 0 xs))),
           None, 0 + length xs, [startLog argv2 n] @ snd (runChunk C cfg envs 0 xs))"
      using processChunks_continue [OF co, of C envs 0
          "\<lparr>total = length xs, passed = 0, failed = []\<rparr>" "[startLog argv2 n]" "chunks_spec c xs"]
      unfolding cc .
    then have "processChunks C cfg envs 0 \<lparr>total = length xs, passed = 0, failed = []\<rparr>
          [startLog argv2 n] (chunks_spec c xs)
        = (st, None, length xs, [startLog argv2 n] @ snd (runChunk C cfg envs 0 xs))"
      by (simp add: aggregate_continue [OF co] st_def rs_def)
    then show ?thesis by (simp add: cfg xs)
  qed
  have lrs: "length rs = length xs" by (simp add: rs_def)
  have "rs ! j = (xs ! j, False)"
    using runChunk_nth [OF j, of C cfg envs 0] s1 by (simp add: rs_def)
  moreover have "rs ! j \<in> set rs" using j lrs by simp
  ultimately have "(xs ! j, False) \<in> set (filter (\<lambda>r. \<not> snd r) rs)" by simp
  then have "tag (fst (xs ! j, False)) \<in> (\<lambda>r. tag (fst r)) ` set (filter (\<lambda>r. \<not> snd r) rs)"
    by (rule imageI)
  then have inf: "tag (xs ! j) \<in> set (failed st)" by (simp add: st_def)
  then have nf: "failed st \<noteq> []" by auto
  have sum: "passed st + length (failed st) = length xs"
    using sum_length_filter_compl [of snd rs] by (simp add: st_def lrs)
  from main_run [OF p ne mk pc] nf obtain r where
    "main C prompts argv2 argv3 envENV config envs = Some r" "stats r = Some st"
    "caught r = None" "started r = length xs" "ending r = ProcessExit 1"
    by auto
  with inf sum s1 s2 s3 show ?thesis by blast
qed

lemma example_continue: "continueOnFailure (effective noOverrides)"
  "1 \<le> concurrency (effective noOverrides)"
  by (simp_all add: effective_def noOverrides_def DEFAULT_CONFIG_def)

theorem C9_empty_prompt_fails_only_its_scenario_witness:
  "\<exists>r st. main exampleConfig exampleCatalogue None None None noOverrides calmSurroundings = Some r
     \<and> caught r = None \<and> ending r = ProcessExit 1 \<and> started r = 3
     \<and> stats r = Some st \<and> ''b'' \<in> set (failed st) \<and> passed st + length (failed st) = 3"
proof -
  have j: "1 < length exampleCatalogue" by (simp add: exampleCatalogue_def)
  have blank: "trim (prompt (exampleCatalogue ! 1)) = []"
    by (simp add: exampleCatalogue_def trim_def isWhiteSpace_def)
  from C9_empty_prompt_fails_only_its_scenario [OF refl example_selected [symmetric]
      example_continue example_parse j blank, of exampleConfig calmSurroundings]
  obtain r st where
    "main exampleConfig exampleCatalogue None None None noOverrides calmSurroundings = Some r"
    "caught r = None" "ending r = ProcessExit 1" "started r = length exampleCatalogue"
    "stats r = Some st" "tag (exampleCatalogue ! 1) \<in> set (failed st)"
    "passed st + length (failed st) = length exampleCatalogue"
    by blast
  then show ?thesis by (simp add: exampleCatalogue_def)
qed

text \<open>
  C9 as stated fails: in a run of three scenarios whose second prompt is blank, the first and
  the third scenario are executed and pass, and no error is raised out of the run.
\<close>

theorem C9_counterexample:
  "map_option started (main exampleConfig exampleCatalogue None None None noOverrides calmSurroundings)
     = Some 3
   \<and> map_option stats (main exampleConfig exampleCatalogue None None None noOverrides calmSurroundings)
     = Some (Some \<lparr>total = 3, passed = 2, failed = [''b'']\<rparr>)
   \<and> map_option caught (main exampleConfig exampleCatalogue None None None noOverrides calmSurroundings)
     = Some None
   \<and> map_option (\<lambda>r. filter isGenerate (trace r))
        (main exampleConfig exampleCatalogue None None None noOverrides calmSurroundings)
     = Some [GenerateTestCalled ''open the page'' ''a'', GenerateTestCalled ''log in as user'' ''c'']"
  by code_simp


theorem C8_completed_run_counts_witness:
  "\<exists>r st. main exampleConfig exampleCatalogue None None None noOverrides calmSurroundings = Some r
     \<and> caught r = None \<and> stats r = Some st
     \<and> passed st + length (failed st) = total st \<and> total st = 3 \<and> started r = 3"
proof -
  have "map_option caught
      (main exampleConfig exampleCatalogue None None None noOverrides calmSurroundings) = Some None"
    and "map_option stats
      (main exampleConfig exampleCatalogue None None None noOverrides calmSurroundings)
       = Some (Some \<lparr>total = 3, passed = 2, failed = [''b'']\<rparr>)"
    by code_simp+
  then obtain r where m: "main exampleConfig exampleCatalogue None None None noOverrides
        calmSurroundings = Some r"
    and c: "caught r = None" and s: "stats r = Some \<lparr>total = 3, passed = 2, failed = [''b'']\<rparr>"
    by auto
  from C8_completed_run_counts [OF m c s refl refl]
  have "started r = total \<lparr>total = 3, passed = 2, failed = [''b'']\<rparr>" by blast
  then have "started r = 3" by simp
  with m c s show ?thesis by simp
qed

end
